theory Spec2Isabelle
  imports Main "HOL-Library.AList" "HOL-Library.Char_ord" "HOL-Library.List_Lexorder"
    "HOL-Library.Word"
begin

section \<open>Strings\<close>

text \<open>
  A Go string is a sequence of bytes, modelled as a \<open>char list\<close>. The helpers below are
  the functions of package \<open>strings\<close> that vlog.go calls. \<open>ToLower\<close> is modelled on
  ASCII bytes only (it maps \<open>A\<close>..\<open>Z\<close> to \<open>a\<close>..\<open>z\<close>); statements that depend on it
  carry the hypothesis \<open>isASCII\<close>.
\<close>

definition isASCII :: "string \<Rightarrow> bool" where
  "isASCII s = list_all (\<lambda>c. (of_char c :: nat) < 128) s"

definition ToLower_char :: "char \<Rightarrow> char" where
  "ToLower_char c =
     (let n = (of_char c :: nat) in if 65 \<le> n \<and> n \<le> 90 then char_of (n + 32) else c)"

definition ToLower :: "string \<Rightarrow> string" where
  "ToLower s = map ToLower_char s"

text \<open>\<open>strings.Index(s, sep)\<close> for a one-byte separator; \<open>None\<close> is Go's \<open>-1\<close>.\<close>

fun Index :: "string \<Rightarrow> char \<Rightarrow> nat option" where
  "Index [] c = None"
| "Index (x # xs) c = (if x = c then Some 0 else map_option Suc (Index xs c))"

definition HasPrefix :: "string \<Rightarrow> string \<Rightarrow> bool" where
  "HasPrefix s p = (length p \<le> length s \<and> take (length p) s = p)"

definition HasSuffix :: "string \<Rightarrow> string \<Rightarrow> bool" where
  "HasSuffix s p = (length p \<le> length s \<and> drop (length s - length p) s = p)"

text \<open>\<open>strings.Contains(k, "*")\<close>.\<close>

definition ContainsStar :: "string \<Rightarrow> bool" where
  "ContainsStar k = (CHR ''*'' \<in> set k)"

text \<open>\<open>strings.TrimRight(k, "/")\<close>: drop every trailing slash.\<close>

definition TrimRightSlash :: "string \<Rightarrow> string" where
  "TrimRightSlash k = rev (dropWhile (\<lambda>c. c = CHR ''/'') (rev k))"

section \<open>Levels and the registry (vlog.go)\<close>

text \<open>
  \<open>type Level int32\<close> with the constants \<open>v2 = -2\<close>, \<open>v1 = -1\<close>, \<open>info = 0\<close>, \<open>err = 1\<close>.
  Cells only ever hold one of the four constants (the zero value is \<open>info\<close>,
  \<open>parseLevel\<close> returns a constant and \<open>Vset\<close> stores \<open>v2\<close> or \<open>v1\<close>), so the type is
  modelled as an enumeration; \<open>Level_int\<close> gives the numeric value.
\<close>

datatype Level = v2 | v1 | info | err


text \<open>
  Modelled from the spec: \<open>Level.String\<close> is generated by \<open>stringer -type=Level\<close> and the
  generated file is not among the sources. It prints the name of the constant, as the
  expected output \<open>*=err,a=info,a/b=v1,...\<close> of \<open>TestSetLevels\<close> shows.
\<close>

fun Level_String :: "Level \<Rightarrow> string" where
  "Level_String v2 = ''v2''"
| "Level_String v1 = ''v1''"
| "Level_String info = ''info''"
| "Level_String err = ''err''"

record levelVar =
  Name :: string
  File :: string
  Level :: Level

text \<open>
  The package state. \<open>levelVars\<close> is a slice of pointers that is created with one
  element (the default cell) and only ever appended to, so it is kept as the default
  cell \<open>root\<close> (\<open>levelVars[0]\<close>) and the list \<open>vars\<close> (\<open>levelVars[1:]\<close>). \<open>lg\<close> is the
  list of lines handed to \<open>lg.Log\<close>, oldest first.
\<close>

record vlog =
  root :: levelVar
  vars :: "levelVar list"
  lg :: "string list"

definition levelVars :: "vlog \<Rightarrow> levelVar list" where
  "levelVars st = root st # vars st"

definition init_vlog :: vlog where
  "init_vlog = \<lparr>root = \<lparr>Name = [], File = [], Level = info\<rparr>, vars = [], lg = []\<rparr>"

text \<open>
  A \<open>*Level\<close> returned by \<open>newVar\<close> points into one of the cells of \<open>levelVars\<close>; it is
  modelled as the index of that cell. \<open>load\<close> reads through the pointer.
\<close>

type_synonym handle = nat

definition load :: "handle \<Rightarrow> vlog \<Rightarrow> Level" where
  "load h st = Level (levelVars st ! h)"






text \<open>The loop of \<open>newVar\<close>: the index of the first cell with the given name.\<close>

fun findName :: "levelVar list \<Rightarrow> string \<Rightarrow> nat option" where
  "findName [] name = None"
| "findName (lv # lvs) name =
     (if Name lv = name then Some 0 else map_option Suc (findName lvs name))"

definition newVar :: "string \<Rightarrow> string \<Rightarrow> vlog \<Rightarrow> handle \<times> vlog" where
  "newVar name fn st =
     (if name = [] then (0, st\<lparr>lg := lg st @ [''fail to infer name from file='' @ fn]\<rparr>)
      else case findName (levelVars st) name of
        Some i \<Rightarrow>
          (i, st\<lparr>lg := lg st @ [''dup level name='' @ name @ '' inferred from file='' @ fn]\<rparr>)
      | None \<Rightarrow>
          (length (levelVars st),
           st\<lparr>vars := vars st @ [\<lparr>Name = name, File = fn, Level = info\<rparr>]\<rparr>))"

definition parseLevel :: "string \<Rightarrow> string list \<Rightarrow> Level \<times> string list" where
  "parseLevel lvs out =
     (let t = ToLower lvs in
      if t = ''2'' \<or> t = ''v2'' then (v2, out)
      else if t = ''1'' \<or> t = ''v1'' then (v1, out)
      else if t = ''i'' \<or> t = ''info'' then (info, out)
      else if t = ''e'' \<or> t = ''err'' then (err, out)
      else (info, out @ [''ignore invalid logging level='' @ lvs]))"

text \<open>
  The maps \<open>exact\<close> and \<open>prefix\<close> of \<open>parseFlag\<close> are association lists with distinct
  keys: \<open>m[k] = v\<close> is \<open>AList.update\<close>, a lookup is \<open>map_of\<close>, and a lookup of a missing
  key gives the zero value \<open>info\<close>.
\<close>

type_synonym levelMap = "(string \<times> Level) list"

definition lookup0 :: "levelMap \<Rightarrow> string \<Rightarrow> Level" where
  "lookup0 m k = (case map_of m k of Some v \<Rightarrow> v | None \<Rightarrow> info)"

text \<open>
  The head of the loop of \<open>parseFlag\<close>: split the rest \<open>s\<close> of the flag at its first
  comma into the next rule \<open>k\<close> and the new rest.
\<close>

definition nextRule :: "string \<Rightarrow> string \<times> string" where
  "nextRule s =
     (case Index s (CHR '','') of Some i \<Rightarrow> (take i s, drop (i + 1) s) | None \<Rightarrow> (s, []))"

text \<open>
  The body of the loop for one rule \<open>k\<close>. A panic is \<open>Inl\<close> of its message;
  \<open>Format("malformed: ...", x)\<close> has no \<open>%\<close> in its first argument and so joins its
  arguments with a space. The second component is the log.
\<close>

definition parseRule ::
  "string \<Rightarrow> string \<Rightarrow> string \<Rightarrow> levelMap \<Rightarrow> levelMap \<Rightarrow> string list
    \<Rightarrow> (string + levelMap \<times> levelMap) \<times> string list" where
  "parseRule value k s exact prefix out =
     (case Index k (CHR ''='') of
        None \<Rightarrow> (Inl (''malformed: no level '' @ value), out)
      | Some j \<Rightarrow>
          (let v = drop (j + 1) k;
               (lv, out') = parseLevel v out;
               k' = ToLower (take j k)
           in if k' = ''*'' \<or> HasSuffix k' ''/*'' then
                (let k'' = butlast k' in
                 if ContainsStar k'' then (Inl (''malformed: multiple star '' @ s), out')
                 else (Inr (exact, AList.update (TrimRightSlash k'' @ ''/'') lv prefix), out'))
              else if ContainsStar k' then (Inl (''malformed: star in middle '' @ s), out')
              else (Inr (AList.update (TrimRightSlash k') lv exact, prefix), out')))"

function parseLoop ::
  "string \<Rightarrow> string \<Rightarrow> levelMap \<Rightarrow> levelMap \<Rightarrow> string list
    \<Rightarrow> (string + levelMap \<times> levelMap) \<times> string list" where
  "parseLoop value s exact prefix out =
     (if s = [] then (Inr (exact, prefix), out)
      else case parseRule value (fst (nextRule s)) (snd (nextRule s)) exact prefix out of
        (Inl msg, out') \<Rightarrow> (Inl msg, out')
      | (Inr (exact', prefix'), out') \<Rightarrow> parseLoop value (snd (nextRule s)) exact' prefix' out')"
  by pat_completeness auto
termination
  by (relation "measure (\<lambda>(value, s, exact, prefix, out). length s)")
    (auto simp: nextRule_def split: option.splits)

declare parseLoop.simps [simp del]

definition parseFlag ::
  "string \<Rightarrow> string list \<Rightarrow> (string + levelMap \<times> levelMap) \<times> string list" where
  "parseFlag value out = parseLoop value value [] [] out"

text \<open>
  The test of the inner loop of \<open>setLevels\<close>. \<open>k[:len(k)-1]\<close> is \<open>butlast k\<close>: the keys
  of \<open>prefix\<close> all end in a slash (lemma \<open>parseFlag_prefix_keys\<close> below), so the slice
  expression never panics on an empty key.
\<close>

definition matchPrefix :: "string \<Rightarrow> string \<Rightarrow> bool" where
  "matchPrefix name k = (name = butlast k \<or> HasPrefix name k)"

text \<open>
  The inner loop of \<open>setLevels\<close>, \<open>for i := len(prefixes) - 1; i >= 0; i--\<close>: the second
  argument is \<open>i + 1\<close>.
\<close>

fun scanPrefixes :: "string list \<Rightarrow> nat \<Rightarrow> levelMap \<Rightarrow> levelVar \<Rightarrow> levelVar" where
  "scanPrefixes prefixes 0 prefix lv = lv"
| "scanPrefixes prefixes (Suc i) prefix lv =
     (let k = prefixes ! i in
      if matchPrefix (Name lv) k then lv\<lparr>Level := lookup0 prefix k\<rparr>
      else scanPrefixes prefixes i prefix lv)"

text \<open>
  \<open>setLevels\<close> returns \<open>Some\<close> of the panic message when \<open>parseFlag\<close> panics (nothing
  recovers it), together with the state at that moment.
\<close>

definition setLevels :: "string \<Rightarrow> vlog \<Rightarrow> string option \<times> vlog" where
  "setLevels value st =
     (case parseFlag value (lg st) of
        (Inl msg, out) \<Rightarrow> (Some msg, st\<lparr>lg := out\<rparr>)
      | (Inr (exact, prefix), out) \<Rightarrow>
          (let r0 = (case map_of prefix ''/'' of
                       Some v \<Rightarrow> (root st)\<lparr>Level := v\<rparr> | None \<Rightarrow> root st);
               def = Level r0;
               vs1 = map (\<lambda>lv. lv\<lparr>Level := def\<rparr>) (vars st);
               vs2 = (if prefix \<noteq> [] then
                        (let prefixes = sort (map fst prefix)
                         in map (scanPrefixes prefixes (length prefixes) prefix) vs1)
                      else vs1);
               vs3 = map (\<lambda>lv. case map_of exact (Name lv) of
                                  Some i \<Rightarrow> lv\<lparr>Level := i\<rparr> | None \<Rightarrow> lv) vs2
           in (None, st\<lparr>root := r0, vars := vs3, lg := out\<rparr>)))"

definition printLevelVars :: "vlog \<Rightarrow> string" where
  "printLevelVars st =
     ''*='' @ Level_String (Level (root st)) @
     concat (map (\<lambda>lv. '','' @ Name lv @ ''='' @ Level_String (Level lv)) (vars st))"

text \<open>
  The states of the package that calls of \<open>newVar\<close> (Register) and \<open>setLevels\<close>
  (Configure) produce from the initial one. A call of \<open>setLevels\<close> that panics leaves the
  state it had reached.
\<close>

inductive reachable :: "vlog \<Rightarrow> bool" where
  reachable_init: "reachable init_vlog"
| reachable_newVar: "reachable st \<Longrightarrow> reachable (snd (newVar name fn st))"
| reachable_setLevels: "reachable st \<Longrightarrow> reachable (snd (setLevels value st))"

section \<open>The rotating logger (rotate\_log.go)\<close>

text \<open>
  Go's \<open>int\<close> is a machine integer of 32 or 64 bits that wraps around; the fields
  \<open>nbytes\<close> and \<open>nextID\<close> and the package variables \<open>logPrefixSize\<close> and \<open>logLimit\<close> are
  words of a width \<open>'w\<close> that the model leaves open, read as signed with \<open>sint\<close>.
  \<open>len(s)\<close> is \<open>of_nat (length s)\<close>.

  A log file is identified by the sequence number in its name (the names of two files of
  one logger differ in it); \<open>lines\<close> are the lines sent to it. The chain \<open>lg\<close>, \<open>wr\<close>,
  \<open>f\<close> of logger, buffered writer and file is one field \<open>f\<close>, \<open>None\<close> when they are nil;
  \<open>closed\<close> holds the files already flushed and closed, oldest first.
\<close>

record (overloaded) ('w::len) logfile =
  seq :: "'w word"
  lines :: "string list"

record (overloaded) ('w::len) rotateLogger =
  f :: "'w logfile option"
  closed :: "'w logfile list"
  nbytes :: "'w word"
  prefix :: string
  nextID :: "'w word"

text \<open>
  The package variables \<open>logPrefixSize\<close> and \<open>logLimit\<close> (the tests assign to them), and
  the environment: whether \<open>os.Create\<close> succeeds for the file with a given sequence
  number.
\<close>

record (overloaded) ('w::len) env =
  logPrefixSize :: "'w word"
  logLimit :: "'w word"
  canCreate :: "'w word \<Rightarrow> bool"

text \<open>
  The panics: \<open>rotate\<close> cannot create the file with the given sequence number, or
  \<open>rl.lg\<close> is nil.
\<close>

datatype panic = CreateFailed int | NilLogger

definition rotate_file :: "('w::len) env \<Rightarrow> 'w rotateLogger \<Rightarrow> panic + 'w rotateLogger" where
  "rotate_file E rl =
     (let done = (case f rl of Some x \<Rightarrow> closed rl @ [x] | None \<Rightarrow> closed rl) in
      if \<not> canCreate E (nextID rl) then Inl (CreateFailed (sint (nextID rl)))
      else Inr (rl\<lparr>f := Some \<lparr>seq = nextID rl, lines = []\<rparr>, closed := done,
                    nbytes := 0, nextID := nextID rl + 1\<rparr>))"

text \<open>\<open>rl.lg.Output(3, s)\<close>: append the line to the current file.\<close>

definition Output :: "string \<Rightarrow> ('w::len) rotateLogger \<Rightarrow> panic + 'w rotateLogger" where
  "Output s rl =
     (case f rl of None \<Rightarrow> Inl NilLogger
      | Some x \<Rightarrow> Inr (rl\<lparr>f := Some (x\<lparr>lines := lines x @ [s]\<rparr>)\<rparr>))"

text \<open>One pass through the body of the \<open>for\<close> loop of \<open>Log\<close>.\<close>

datatype 'a pass = Retry 'a | Done 'a | Panicked panic

definition Log_body :: "('w::len) env \<Rightarrow> string \<Rightarrow> 'w rotateLogger \<Rightarrow> 'w rotateLogger pass" where
  "Log_body E s rl =
     (let checklimit = (0 < sint (nbytes rl));
          rl1 = rl\<lparr>nbytes := nbytes rl + (logPrefixSize E + of_nat (length s))\<rparr>
      in if checklimit \<and> sint (logLimit E) < sint (nbytes rl1) then
           (case rotate_file E rl1 of Inl p \<Rightarrow> Panicked p | Inr rl2 \<Rightarrow> Retry rl2)
         else
           (case Output s rl1 of Inl p \<Rightarrow> Panicked p | Inr rl2 \<Rightarrow> Done rl2))"

lemma Log_body_Retry:
  "Log_body E s rl = Retry rl' \<Longrightarrow> 0 < sint (nbytes rl) \<and> nbytes rl' = 0"
  by (auto simp: Log_body_def rotate_file_def Let_def split: if_splits sum.splits)

function Log :: "('w::len) env \<Rightarrow> string \<Rightarrow> 'w rotateLogger \<Rightarrow> panic + 'w rotateLogger" where
  "Log E s rl =
     (case Log_body E s rl of
        Retry rl' \<Rightarrow> Log E s rl'
      | Done rl' \<Rightarrow> Inr rl'
      | Panicked p \<Rightarrow> Inl p)"
  by pat_completeness auto
termination
  by (relation "measure (\<lambda>(E, s, rl). if 0 < sint (nbytes rl) then 1 else 0)")
    (auto dest: Log_body_Retry)

declare Log.simps [simp del]

text \<open>The number of passes through the loop body that \<open>Log\<close> makes.\<close>

function Log_passes :: "('w::len) env \<Rightarrow> string \<Rightarrow> 'w rotateLogger \<Rightarrow> nat" where
  "Log_passes E s rl =
     (case Log_body E s rl of
        Retry rl' \<Rightarrow> Suc (Log_passes E s rl')
      | Done rl' \<Rightarrow> 1
      | Panicked p \<Rightarrow> 1)"
  by pat_completeness auto
termination
  by (relation "measure (\<lambda>(E, s, rl). if 0 < sint (nbytes rl) then 1 else 0)")
    (auto dest: Log_body_Retry)

declare Log_passes.simps [simp del]

definition newRotateLogger :: "('w::len) env \<Rightarrow> string \<Rightarrow> panic + 'w rotateLogger" where
  "newRotateLogger E p =
     rotate_file E \<lparr>f = None, closed = [], nbytes = 0, prefix = p, nextID = 0\<rparr>"

text \<open>The log files that exist: the closed ones and the open one.\<close>

definition files :: "('w::len) rotateLogger \<Rightarrow> 'w logfile list" where
  "files rl = closed rl @ (case f rl of Some x \<Rightarrow> [x] | None \<Rightarrow> [])"

text \<open>
  The loops of \<open>TestRotateLogger\<close>: log the lines one after the other; a panic ends
  the run.
\<close>

fun Log_all ::
  "('w::len) env \<Rightarrow> string list \<Rightarrow> panic + 'w rotateLogger \<Rightarrow> panic + 'w rotateLogger" where
  "Log_all E [] r = r"
| "Log_all E (s # ss) r = (case r of Inl p \<Rightarrow> Inl p | Inr rl \<Rightarrow> Log_all E ss (Log E s rl))"

text \<open>The settings of \<open>TestRotateLogger\<close>: \<open>logLimit = 180\<close>, and every file can be created.\<close>

definition E180 :: "('w::len) env" where
  "E180 = \<lparr>logPrefixSize = 50, logLimit = 180, canCreate = (\<lambda>_. True)\<rparr>"

text \<open>
  The loop of \<open>TestSetLevels\<close> that registers the names, \<open>for _, n := range names
  { newVar(n, "") }\<close>.
\<close>

definition register_all :: "string list \<Rightarrow> vlog \<Rightarrow> vlog" where
  "register_all names st = foldl (\<lambda>st n. snd (newVar n [] st)) st names"

text \<open>
  The rules that the loop of \<open>parseFlag\<close> takes from a flag, in order: the pieces
  between commas (there is no empty last piece after a final comma).
\<close>

function rulesOf :: "string \<Rightarrow> string list" where
  "rulesOf s = (if s = [] then [] else fst (nextRule s) # rulesOf (snd (nextRule s)))"
  by pat_completeness auto
termination
  by (relation "measure length") (auto simp: nextRule_def split: option.splits)

declare rulesOf.simps [simp del]

text \<open>
  The name of a rule is what precedes its first \<open>=\<close>. The next three predicates say
  when a rule is malformed: it has no \<open>=\<close>, or its name has a \<open>*\<close> that is not the
  last byte of a name that is \<open>*\<close> or ends in \<open>/*\<close>, or its name has several \<open>*\<close>.
  \<open>isConfigError\<close> recognises the messages of the three panics of \<open>parseFlag\<close>.
\<close>

definition ruleName :: "string \<Rightarrow> string" where
  "ruleName k = (case Index k (CHR ''='') of Some j \<Rightarrow> take j k | None \<Rightarrow> k)"

definition starCount :: "string \<Rightarrow> nat" where
  "starCount n = length (filter (\<lambda>c. c = CHR ''*'') n)"

definition misplacedStar :: "string \<Rightarrow> bool" where
  "misplacedStar n =
     (ContainsStar (butlast n) \<or> (ContainsStar n \<and> n \<noteq> ''*'' \<and> \<not> HasSuffix n ''/*''))"

definition malformedRule :: "string \<Rightarrow> bool" where
  "malformedRule k =
     (CHR ''='' \<notin> set k \<or> misplacedStar (ruleName k) \<or> 2 \<le> starCount (ruleName k))"

definition isConfigError :: "string \<Rightarrow> string \<Rightarrow> bool" where
  "isConfigError value msg =
     (msg = ''malformed: no level '' @ value \<or>
      take 25 msg = ''malformed: multiple star '' \<or>
      take 26 msg = ''malformed: star in middle '')"

text \<open>The level tokens that \<open>parseLevel\<close> knows, in lower case.\<close>

definition levelTokens :: "string list" where
  "levelTokens = [''2'', ''v2'', ''1'', ''v1'', ''i'', ''info'', ''e'', ''err'']"

text \<open>
  What the loop body of \<open>parseFlag\<close> stores for a well-formed rule with name \<open>n\<close> and
  level \<open>lv\<close>: an entry of \<open>prefix\<close> when the name is \<open>*\<close> or ends in \<open>/*\<close>, an entry of
  \<open>exact\<close> otherwise.
\<close>

definition recordRule ::
  "string \<Rightarrow> Level \<Rightarrow> levelMap \<Rightarrow> levelMap \<Rightarrow> levelMap \<times> levelMap" where
  "recordRule n lv e p =
     (let n' = ToLower n in
      if n' = ''*'' \<or> HasSuffix n' ''/*''
      then (e, AList.update (TrimRightSlash (butlast n') @ ''/'') lv p)
      else (AList.update (TrimRightSlash n') lv e, p))"

text \<open>
  The resolution rule that the properties below compare \<open>setLevels\<close> with: the level of
  the exact rule for the name if there is one, else the level of the first prefix that
  matches the name in the list of the prefixes sorted and then reversed, else the
  default \<open>def\<close>.
\<close>

definition resolve :: "levelMap \<Rightarrow> levelMap \<Rightarrow> Level \<Rightarrow> string \<Rightarrow> Level" where
  "resolve emap pmap def name =
     (case map_of emap name of
        Some l \<Rightarrow> l
      | None \<Rightarrow>
         (case find (matchPrefix name) (rev (sort (map fst pmap))) of
            Some k \<Rightarrow> lookup0 pmap k
          | None \<Rightarrow> def))"

text \<open>
  The names for which the output of \<open>printLevelVars\<close> can be parsed back: not empty,
  ASCII, in lower case, without comma, \<open>=\<close> and \<open>*\<close>, and not ending in a slash.
\<close>

definition plainName :: "string \<Rightarrow> bool" where
  "plainName n =
     (n \<noteq> [] \<and> isASCII n \<and> ToLower n = n \<and> CHR '','' \<notin> set n \<and> CHR ''='' \<notin> set n \<and>
      CHR ''*'' \<notin> set n \<and> last n \<noteq> CHR ''/'')"

text \<open>The part of the output of \<open>printLevelVars\<close> that follows the default.\<close>

definition printCells :: "levelVar list \<Rightarrow> string" where
  "printCells cs = concat (map (\<lambda>lv. '','' @ Name lv @ ''='' @ Level_String (Level lv)) cs)"

section \<open>Properties of the rotating logger\<close>

lemma Log_no_rotation:
  "\<not> (0 < sint (nbytes rl) \<and>
      sint (logLimit E) < sint (nbytes rl + (logPrefixSize E + of_nat (length s)))) \<Longrightarrow>
   Log E s rl = Output s (rl\<lparr>nbytes := nbytes rl + (logPrefixSize E + of_nat (length s))\<rparr>)"
  by (subst Log.simps) (auto simp: Log_body_def Let_def split: sum.splits)

lemma Log_rotation:
  assumes "0 < sint (nbytes rl)"
    "sint (logLimit E) < sint (nbytes rl + (logPrefixSize E + of_nat (length s)))"
  shows "Log E s rl =
     (case rotate_file E (rl\<lparr>nbytes := nbytes rl + (logPrefixSize E + of_nat (length s))\<rparr>) of
        Inl p \<Rightarrow> Inl p
      | Inr rl2 \<Rightarrow> Output s (rl2\<lparr>nbytes := logPrefixSize E + of_nat (length s)\<rparr>))"
proof (cases "canCreate E (nextID rl)")
  case False
  with assms show ?thesis
    by (subst Log.simps) (simp add: Log_body_def Let_def rotate_file_def)
next
  case True
  let ?rl1 = "rl\<lparr>nbytes := nbytes rl + (logPrefixSize E + of_nat (length s))\<rparr>"
  obtain rl2 where r: "rotate_file E ?rl1 = Inr rl2" and n: "nbytes rl2 = 0"
    using True by (simp add: rotate_file_def Let_def)
  have "Log E s rl = Log E s rl2"
    using assms r by (subst Log.simps) (simp add: Log_body_def Let_def)
  also have "\<dots> = Output s (rl2\<lparr>nbytes := nbytes rl2 + (logPrefixSize E + of_nat (length s))\<rparr>)"
    using n by (intro Log_no_rotation) simp
  finally show ?thesis using r n by simp
qed

lemma Log_rotation_result:
  assumes "f rl = Some x" "canCreate E (nextID rl)"
    and "0 < sint (nbytes rl)"
    and "sint (logLimit E) < sint (nbytes rl + (logPrefixSize E + of_nat (length s)))"
  shows "Log E s rl =
     Inr (rl\<lparr>f := Some \<lparr>seq = nextID rl, lines = [s]\<rparr>, closed := closed rl @ [x],
              nbytes := logPrefixSize E + of_nat (length s), nextID := nextID rl + 1\<rparr>)"
  using assms by (simp add: Log_rotation rotate_file_def Output_def)

lemma Log_no_rotation_result:
  assumes "f rl = Some x"
    and "\<not> (0 < sint (nbytes rl) \<and>
      sint (logLimit E) < sint (nbytes rl + (logPrefixSize E + of_nat (length s))))"
  shows "Log E s rl =
     Inr (rl\<lparr>f := Some (x\<lparr>lines := lines x @ [s]\<rparr>),
              nbytes := nbytes rl + (logPrefixSize E + of_nat (length s))\<rparr>)"
  using assms by (simp add: Log_no_rotation Output_def)

lemma Log_passes_le2: "Log_passes E s rl \<le> 2"
proof (cases "Log_body E s rl")
  case (Retry rl1)
  then have "nbytes rl1 = 0" by (rule Log_body_Retry [THEN conjunct2])
  then have "\<And>r. Log_body E s rl1 \<noteq> Retry r"
    by (auto dest: Log_body_Retry)
  then have "Log_passes E s rl1 = 1"
    by (subst Log_passes.simps) (simp split: pass.splits)
  with Retry show ?thesis by (subst Log_passes.simps) simp
qed (subst Log_passes.simps, simp)+

lemma Log_nextID:
  assumes "Log E s rl = Inr rl'"
  shows "nextID rl' = nextID rl \<or> nextID rl' = nextID rl + 1"
proof (cases "0 < sint (nbytes rl) \<and>
      sint (logLimit E) < sint (nbytes rl + (logPrefixSize E + of_nat (length s)))")
  case True
  with assms show ?thesis
    by (auto simp: Log_rotation rotate_file_def Output_def Let_def
        split: if_splits option.splits)
next
  case False
  with assms show ?thesis
    by (auto simp: Log_no_rotation Output_def split: option.splits)
qed

lemma Log_files:
  assumes "Log E s rl = Inr rl'"
  shows "length (files rl') \<le> length (files rl) + 1"
proof (cases "0 < sint (nbytes rl) \<and>
      sint (logLimit E) < sint (nbytes rl + (logPrefixSize E + of_nat (length s)))")
  case True
  with assms show ?thesis
    by (auto simp: Log_rotation rotate_file_def Output_def Let_def files_def
        split: if_splits option.splits)
next
  case False
  with assms show ?thesis
    by (auto simp: Log_no_rotation Output_def files_def split: option.splits)
qed

text \<open>The sum that Log computes is the sum of the integers as long as that is in range.\<close>

lemma sint_sum_in_range:
  fixes n p :: "'w::len word"
  assumes "- (2 ^ (LENGTH('w) - 1)) \<le> sint n + (sint p + int len)"
    and "sint n + (sint p + int len) < 2 ^ (LENGTH('w) - 1)"
  shows "sint (n + (p + of_nat len)) = sint n + (sint p + int len)"
proof -
  have "n + (p + of_nat len) = word_of_int (sint n + (sint p + int len))" by simp
  then have "sint (n + (p + of_nat len)) =
      signed_take_bit (LENGTH('w) - 1) (sint n + (sint p + int len))"
    by (simp only: sint_sbintrunc')
  with assms show ?thesis by (simp add: signed_take_bit_int_eq_self)
qed

text \<open>
  C7. \<open>Log\<close> rotates exactly when \<open>nbytes > 0\<close> and \<open>nbytes + (logPrefixSize + len(s))
  > logLimit\<close>, as long as that sum of the three integers is in the range of \<open>int\<close> (so
  that the code's addition does not wrap): for a logger with an open file \<open>x\<close>, and when
  the new file can be created, a call in that case closes \<open>x\<close>, opens the file numbered
  \<open>nextID\<close>, adds exactly 1 to \<open>nextID\<close>, resets \<open>nbytes\<close> to 0 and then writes the line
  there (so \<open>nbytes\<close> ends as the size of that line); in every other case it appends the
  line to \<open>x\<close> and leaves \<open>nextID\<close> alone. With \<open>logLimit = 180\<close> and \<open>logPrefixSize = 50\<close>,
  on 64 and on 32 bits, logging \<open>a\<close> and \<open>bc\<close> after construction leaves one file, and
  logging a line of 128 bytes and \<open>def\<close> after them leaves exactly three.
\<close>

theorem Log_rotates_exactly_when_over_limit:
  fixes rl :: "('w::len) rotateLogger"
  shows
  "(f rl = Some x \<longrightarrow> canCreate E (nextID rl) \<longrightarrow>
    - (2 ^ (LENGTH('w) - 1)) \<le> sint (nbytes rl) + (sint (logPrefixSize E) + int (length s)) \<longrightarrow>
    sint (nbytes rl) + (sint (logPrefixSize E) + int (length s)) < 2 ^ (LENGTH('w) - 1) \<longrightarrow>
      Log E s rl =
        Inr (if 0 < sint (nbytes rl) \<and>
                sint (logLimit E) < sint (nbytes rl) + (sint (logPrefixSize E) + int (length s))
             then rl\<lparr>f := Some \<lparr>seq = nextID rl, lines = [s]\<rparr>, closed := closed rl @ [x],
                     nbytes := logPrefixSize E + of_nat (length s), nextID := nextID rl + 1\<rparr>
             else rl\<lparr>f := Some (x\<lparr>lines := lines x @ [s]\<rparr>),
                     nbytes := nbytes rl + (logPrefixSize E + of_nat (length s))\<rparr>)) \<and>
   map_sum id (\<lambda>rl. length (files rl))
     (Log_all (E180 :: 64 env) [''a'', ''bc''] (newRotateLogger E180 p)) = Inr 1 \<and>
   map_sum id (\<lambda>rl. length (files rl))
     (Log_all (E180 :: 64 env) [''a'', ''bc'', replicate 128 (CHR 0x00), ''def'']
        (newRotateLogger E180 p)) = Inr 3 \<and>
   map_sum id (\<lambda>rl. length (files rl))
     (Log_all (E180 :: 32 env) [''a'', ''bc''] (newRotateLogger E180 p)) = Inr 1 \<and>
   map_sum id (\<lambda>rl. length (files rl))
     (Log_all (E180 :: 32 env) [''a'', ''bc'', replicate 128 (CHR 0x00), ''def'']
        (newRotateLogger E180 p)) = Inr 3"
proof (intro conjI impI)
  assume a: "f rl = Some x" "canCreate E (nextID rl)"
    and r: "- (2 ^ (LENGTH('w) - 1)) \<le> sint (nbytes rl) + (sint (logPrefixSize E) + int (length s))"
      "sint (nbytes rl) + (sint (logPrefixSize E) + int (length s)) < 2 ^ (LENGTH('w) - 1)"
  have e: "sint (nbytes rl + (logPrefixSize E + of_nat (length s))) =
      sint (nbytes rl) + (sint (logPrefixSize E) + int (length s))"
    using r by (rule sint_sum_in_range)
  show "Log E s rl =
        Inr (if 0 < sint (nbytes rl) \<and>
                sint (logLimit E) < sint (nbytes rl) + (sint (logPrefixSize E) + int (length s))
             then rl\<lparr>f := Some \<lparr>seq = nextID rl, lines = [s]\<rparr>, closed := closed rl @ [x],
                     nbytes := logPrefixSize E + of_nat (length s), nextID := nextID rl + 1\<rparr>
             else rl\<lparr>f := Some (x\<lparr>lines := lines x @ [s]\<rparr>),
                     nbytes := nbytes rl + (logPrefixSize E + of_nat (length s))\<rparr>)"
  proof (cases "0 < sint (nbytes rl) \<and>
                sint (logLimit E) < sint (nbytes rl) + (sint (logPrefixSize E) + int (length s))")
    case True
    then have "0 < sint (nbytes rl)"
      and "sint (logLimit E) < sint (nbytes rl + (logPrefixSize E + of_nat (length s)))"
      using e by simp_all
    with a have "Log E s rl =
        Inr (rl\<lparr>f := Some \<lparr>seq = nextID rl, lines = [s]\<rparr>, closed := closed rl @ [x],
                 nbytes := logPrefixSize E + of_nat (length s), nextID := nextID rl + 1\<rparr>)"
      by (rule Log_rotation_result)
    with True show ?thesis by simp
  next
    case False
    then have "\<not> (0 < sint (nbytes rl) \<and>
        sint (logLimit E) < sint (nbytes rl + (logPrefixSize E + of_nat (length s))))"
      using e by simp
    with a(1) have "Log E s rl =
        Inr (rl\<lparr>f := Some (x\<lparr>lines := lines x @ [s]\<rparr>),
                 nbytes := nbytes rl + (logPrefixSize E + of_nat (length s))\<rparr>)"
      by (rule Log_no_rotation_result)
    then show ?thesis by (simp only: False if_False)
  qed
qed (code_simp+)

theorem Log_rotates_exactly_when_over_limit_witness:
  "f \<lparr>f = Some \<lparr>seq = 1, lines = [replicate 128 (CHR 0x00)]\<rparr>,
      closed = [\<lparr>seq = 0, lines = [''a'', ''bc'']\<rparr>], nbytes = (178 :: 64 word), prefix = ''p'',
      nextID = 2\<rparr> = Some \<lparr>seq = 1, lines = [replicate 128 (CHR 0x00)]\<rparr> \<and>
   canCreate (E180 :: 64 env) 2 \<and>
   - (2 ^ (LENGTH(64) - 1)) \<le> sint (178 :: 64 word) + (sint (logPrefixSize (E180 :: 64 env)) + int (length ''def'')) \<and>
   sint (178 :: 64 word) + (sint (logPrefixSize (E180 :: 64 env)) + int (length ''def'')) < 2 ^ (LENGTH(64) - 1) \<and>
   Log E180 ''def''
     \<lparr>f = Some \<lparr>seq = 1, lines = [replicate 128 (CHR 0x00)]\<rparr>,
      closed = [\<lparr>seq = 0, lines = [''a'', ''bc'']\<rparr>], nbytes = (178 :: 64 word), prefix = ''p'',
      nextID = 2\<rparr> =
   Inr \<lparr>f = Some \<lparr>seq = 2, lines = [''def'']\<rparr>,
        closed = [\<lparr>seq = 0, lines = [''a'', ''bc'']\<rparr>,
                  \<lparr>seq = 1, lines = [replicate 128 (CHR 0x00)]\<rparr>],
        nbytes = 53, prefix = ''p'', nextID = 3\<rparr>"
  using Log_rotates_exactly_when_over_limit
    [where E = E180 and s = "''def''" and x = "\<lparr>seq = 1, lines = [replicate 128 (CHR 0x00)]\<rparr>"
      and rl = "\<lparr>f = Some \<lparr>seq = 1, lines = [replicate 128 (CHR 0x00)]\<rparr>,
        closed = [\<lparr>seq = 0, lines = [''a'', ''bc'']\<rparr>], nbytes = (178 :: 64 word),
        prefix = ''p'', nextID = 2\<rparr>"]
  by (simp add: E180_def)

text \<open>
  C10. Every call of \<open>Log\<close> terminates (\<open>Log\<close> is a total function, by the termination
  proof above) after at most two passes through its loop and at most one rotation: the
  result has \<open>nextID\<close> unchanged or one larger, and at most one file more. When the
  size check of the first pass holds (in the code's wrapping arithmetic), the call
  rotates once and the second pass, which starts with \<open>nbytes = 0\<close>, writes the line to
  the new file without a size check, whatever the size of the line, also one larger
  than \<open>logLimit\<close>. When \<open>nbytes\<close> is not positive at the call, the line is appended
  without any rotation.
\<close>

theorem Log_terminates_with_at_most_one_rotation:
  "Log_passes E s rl \<le> 2 \<and>
   (\<forall>rl'. Log E s rl = Inr rl' \<longrightarrow>
      (nextID rl' = nextID rl \<or> nextID rl' = nextID rl + 1) \<and>
      length (files rl') \<le> length (files rl) + 1) \<and>
   (f rl = Some x \<longrightarrow> canCreate E (nextID rl) \<longrightarrow> 0 < sint (nbytes rl) \<longrightarrow>
    sint (logLimit E) < sint (nbytes rl + (logPrefixSize E + of_nat (length s))) \<longrightarrow>
      Log E s rl =
        Inr (rl\<lparr>f := Some \<lparr>seq = nextID rl, lines = [s]\<rparr>, closed := closed rl @ [x],
                 nbytes := logPrefixSize E + of_nat (length s), nextID := nextID rl + 1\<rparr>)) \<and>
   (f rl = Some x \<longrightarrow> \<not> 0 < sint (nbytes rl) \<longrightarrow>
      Log E s rl =
        Inr (rl\<lparr>f := Some (x\<lparr>lines := lines x @ [s]\<rparr>),
                 nbytes := nbytes rl + (logPrefixSize E + of_nat (length s))\<rparr>))"
proof (intro conjI allI impI)
  show "Log_passes E s rl \<le> 2" by (rule Log_passes_le2)
next
  fix rl' assume "Log E s rl = Inr rl'"
  then show "nextID rl' = nextID rl \<or> nextID rl' = nextID rl + 1"
    by (rule Log_nextID)
next
  fix rl' assume "Log E s rl = Inr rl'"
  then show "length (files rl') \<le> length (files rl) + 1"
    by (rule Log_files)
next
  assume "f rl = Some x" "canCreate E (nextID rl)" "0 < sint (nbytes rl)"
    "sint (logLimit E) < sint (nbytes rl + (logPrefixSize E + of_nat (length s)))"
  then show "Log E s rl =
        Inr (rl\<lparr>f := Some \<lparr>seq = nextID rl, lines = [s]\<rparr>, closed := closed rl @ [x],
                 nbytes := logPrefixSize E + of_nat (length s), nextID := nextID rl + 1\<rparr>)"
    by (rule Log_rotation_result)
next
  assume "f rl = Some x" "\<not> 0 < sint (nbytes rl)"
  then show "Log E s rl =
        Inr (rl\<lparr>f := Some (x\<lparr>lines := lines x @ [s]\<rparr>),
                 nbytes := nbytes rl + (logPrefixSize E + of_nat (length s))\<rparr>)"
    by (simp add: Log_no_rotation_result)
qed

theorem Log_terminates_with_at_most_one_rotation_witness:
  "Log_passes E180 (replicate 200 (CHR ''x''))
     \<lparr>f = Some \<lparr>seq = 0, lines = [''a'']\<rparr>, closed = [], nbytes = (51 :: 64 word), prefix = ''p'',
      nextID = 1\<rparr> \<le> 2 \<and>
   canCreate (E180 :: 64 env) 1 \<and> 0 < sint (51 :: 64 word) \<and>
   sint (logLimit (E180 :: 64 env)) <
     sint ((51 :: 64 word) + (logPrefixSize E180 + of_nat (length (replicate 200 (CHR ''x''))))) \<and>
   sint (logLimit (E180 :: 64 env)) <
     sint ((logPrefixSize E180 :: 64 word) + of_nat (length (replicate 200 (CHR ''x'')))) \<and>
   Log E180 (replicate 200 (CHR ''x''))
     \<lparr>f = Some \<lparr>seq = 0, lines = [''a'']\<rparr>, closed = [], nbytes = (51 :: 64 word), prefix = ''p'',
      nextID = 1\<rparr> =
   Inr \<lparr>f = Some \<lparr>seq = 1, lines = [replicate 200 (CHR ''x'')]\<rparr>,
        closed = [\<lparr>seq = 0, lines = [''a'']\<rparr>], nbytes = 250, prefix = ''p'', nextID = 2\<rparr> \<and>
   Log E180 (replicate 200 (CHR ''x''))
     \<lparr>f = Some \<lparr>seq = 0, lines = []\<rparr>, closed = [], nbytes = (0 :: 64 word), prefix = ''p'',
      nextID = 1\<rparr> =
   Inr \<lparr>f = Some \<lparr>seq = 0, lines = [replicate 200 (CHR ''x'')]\<rparr>,
        closed = [], nbytes = 250, prefix = ''p'', nextID = 1\<rparr>"
  using Log_terminates_with_at_most_one_rotation
    [where E = E180 and s = "replicate 200 (CHR ''x'')" and x = "\<lparr>seq = 0, lines = [''a'']\<rparr>"
      and rl = "\<lparr>f = Some \<lparr>seq = 0, lines = [''a'']\<rparr>, closed = [],
        nbytes = (51 :: 64 word), prefix = ''p'', nextID = 1\<rparr>"]
    Log_terminates_with_at_most_one_rotation
    [where E = E180 and s = "replicate 200 (CHR ''x'')" and x = "\<lparr>seq = 0, lines = []\<rparr>"
      and rl = "\<lparr>f = Some \<lparr>seq = 0, lines = []\<rparr>, closed = [],
        nbytes = (0 :: 64 word), prefix = ''p'', nextID = 1\<rparr>"]
  by (simp add: E180_def)

section \<open>Properties of the registry\<close>

subsection \<open>Registration\<close>











subsection \<open>Configuration\<close>

lemma parseFlag_empty: "parseFlag [] out = (Inr ([], []), out)"
  by (simp add: parseFlag_def parseLoop.simps)

text \<open>
  C1, as the code has it. \<open>setLevels("")\<close> does not panic and logs nothing; it keeps the
  default cell and every name, and sets the level of every other cell to the level of
  the default cell. (A cell keeps its level only when that was the default level
  already.)
\<close>

theorem setLevels_empty_resets_to_default:
  "setLevels [] st = (None, st\<lparr>vars := map (\<lambda>lv. lv\<lparr>Level := Level (root st)\<rparr>) (vars st)\<rparr>)"
  by (simp add: setLevels_def parseFlag_empty)

text \<open>
  C1 as stated fails: after registering \<open>a\<close> and configuring \<open>a=v1\<close>, the cell \<open>a\<close> (handle
  1) is at \<open>v1\<close>; configuring the empty string puts it back to \<open>info\<close>.
\<close>

theorem setLevels_empty_not_noop:
  "load 1 (snd (setLevels ''a=v1'' (snd (newVar ''a'' [] init_vlog)))) = v1 \<and>
   load 1 (snd (setLevels []
     (snd (setLevels ''a=v1'' (snd (newVar ''a'' [] init_vlog)))))) = info"
  by code_simp

text \<open>
  C2. With the cells \<open>a\<close>, \<open>a/b\<close>, \<open>a/b/c\<close>, \<open>a/b/d\<close>, \<open>c\<close> registered, configuring
  \<open>*=e,a=i,a/b=v1,a/b/c=v2\<close> returns normally, logs nothing and leaves the default at
  \<open>err\<close> and the cells at \<open>info\<close>, \<open>v1\<close>, \<open>v2\<close>, \<open>err\<close>, \<open>err\<close>.
\<close>

theorem setLevels_example:
  "setLevels ''*=e,a=i,a/b=v1,a/b/c=v2''
     (register_all [''a'', ''a/b'', ''a/b/c'', ''a/b/d'', ''c''] init_vlog) =
   (None, \<lparr>root = \<lparr>Name = [], File = [], Level = err\<rparr>,
      vars = [\<lparr>Name = ''a'', File = [], Level = info\<rparr>,
              \<lparr>Name = ''a/b'', File = [], Level = v1\<rparr>,
              \<lparr>Name = ''a/b/c'', File = [], Level = v2\<rparr>,
              \<lparr>Name = ''a/b/d'', File = [], Level = err\<rparr>,
              \<lparr>Name = ''c'', File = [], Level = err\<rparr>], lg = []\<rparr>)"
  by code_simp

subsection \<open>Strings and the parse loop\<close>

lemma ToLower_char_fix:
  assumes "\<not> (65 \<le> (of_char c0 :: nat) \<and> (of_char c0 :: nat) \<le> 90)"
    and "\<not> (97 \<le> (of_char c0 :: nat) \<and> (of_char c0 :: nat) \<le> 122)"
  shows "ToLower_char c = c0 \<longleftrightarrow> c = c0"
proof (cases "65 \<le> (of_char c :: nat) \<and> (of_char c :: nat) \<le> 90")
  case True
  then have "(of_char (ToLower_char c) :: nat) = of_char c + 32"
    by (simp add: ToLower_char_def Let_def)
  with True assms show ?thesis by auto
next
  case False
  then show ?thesis by (auto simp: ToLower_char_def Let_def)
qed

lemma ToLower_char_star [simp]: "ToLower_char c = CHR ''*'' \<longleftrightarrow> c = CHR ''*''"
  by (rule ToLower_char_fix) simp_all

lemma ToLower_char_slash [simp]: "ToLower_char c = CHR ''/'' \<longleftrightarrow> c = CHR ''/''"
  by (rule ToLower_char_fix) simp_all

lemma ToLower_char_star' [simp]: "CHR ''*'' = ToLower_char c \<longleftrightarrow> c = CHR ''*''"
  by (subst eq_commute) (rule ToLower_char_star)

lemma ToLower_char_slash' [simp]: "CHR ''/'' = ToLower_char c \<longleftrightarrow> c = CHR ''/''"
  by (subst eq_commute) (rule ToLower_char_slash)

lemma ToLower_length [simp]: "length (ToLower s) = length s"
  by (simp add: ToLower_def)

lemma ContainsStar_ToLower [simp]: "ContainsStar (ToLower k) = ContainsStar k"
  by (auto simp: ContainsStar_def ToLower_def image_iff)

lemma ToLower_eq_star [simp]: "ToLower k = ''*'' \<longleftrightarrow> k = ''*''"
  by (cases k) (auto simp: ToLower_def)

lemma HasSuffix_iff: "HasSuffix k sfx \<longleftrightarrow> (\<exists>p. k = p @ sfx)"
proof
  assume "HasSuffix k sfx"
  then have "drop (length k - length sfx) k = sfx"
    by (simp add: HasSuffix_def)
  then have "k = take (length k - length sfx) k @ sfx"
    using append_take_drop_id [of "length k - length sfx" k] by simp
  then show "\<exists>p. k = p @ sfx" ..
next
  assume "\<exists>p. k = p @ sfx"
  then show "HasSuffix k sfx" by (auto simp: HasSuffix_def)
qed

lemma ToLower_eq_slash_star: "ToLower b = ''/*'' \<longleftrightarrow> b = ''/*''"
proof (cases b)
  case Nil
  then show ?thesis by (simp add: ToLower_def)
next
  case (Cons x xs)
  then show ?thesis by (cases xs) (auto simp: ToLower_def)
qed

lemma HasSuffix_ToLower [simp]: "HasSuffix (ToLower k) ''/*'' = HasSuffix k ''/*''"
proof
  assume "HasSuffix (ToLower k) ''/*''"
  then obtain p where "map ToLower_char k = p @ ''/*''"
    by (auto simp: HasSuffix_iff ToLower_def)
  then have "\<exists>a b. k = a @ b \<and> p = map ToLower_char a \<and> ''/*'' = map ToLower_char b"
    by (simp only: map_eq_append_conv)
  then obtain a b where k: "k = a @ b" and "map ToLower_char b = ''/*''"
    by metis
  then have "b = ''/*''" by (simp add: ToLower_eq_slash_star [unfolded ToLower_def])
  with k show "HasSuffix k ''/*''" by (auto simp only: HasSuffix_iff)
next
  assume "HasSuffix k ''/*''"
  then obtain p where "k = p @ ''/*''" by (auto simp only: HasSuffix_iff)
  then have "ToLower k = ToLower p @ ''/*''"
    using ToLower_eq_slash_star [of "''/*''"] by (simp only: ToLower_def map_append) simp
  then show "HasSuffix (ToLower k) ''/*''" by (auto simp only: HasSuffix_iff)
qed

lemma butlast_ToLower: "butlast (ToLower k) = ToLower (butlast k)"
  by (simp add: ToLower_def map_butlast)

lemma Index_None: "Index s c = None \<longleftrightarrow> c \<notin> set s"
  by (induction s) auto

lemma Index_NoneI: "c \<notin> set s \<Longrightarrow> Index s c = None"
  by (simp add: Index_None)

lemma Index_Some: "Index s c = Some i \<Longrightarrow> i < length s \<and> s ! i = c \<and> c \<notin> set (take i s)"
  by (induction s arbitrary: i) (auto split: if_splits)

lemma Index_append: "c \<notin> set a \<Longrightarrow> Index (a @ c # b) c = Some (length a)"
  by (induction a) auto

lemma nextRule_comma: "CHR '','' \<notin> set r \<Longrightarrow> nextRule (r @ CHR '','' # rest) = (r, rest)"
  by (simp add: nextRule_def Index_append)

lemma nextRule_last: "CHR '','' \<notin> set r \<Longrightarrow> nextRule r = (r, [])"
proof -
  assume "CHR '','' \<notin> set r"
  then have "Index r (CHR '','') = None" by (rule Index_NoneI)
  then show ?thesis by (simp add: nextRule_def)
qed

lemma starCount_butlast: "2 \<le> starCount n \<Longrightarrow> ContainsStar (butlast n)"
proof -
  assume a: "2 \<le> starCount n"
  then have "n \<noteq> []" by (auto simp: starCount_def)
  then have "n = butlast n @ [last n]" by simp
  then have "starCount n \<le> starCount (butlast n) + 1"
    unfolding starCount_def by (metis filter_append length_append length_filter_le add_le_cancel_left length_Cons list.size(3) One_nat_def)
  with a have "1 \<le> starCount (butlast n)" by simp
  then have "filter (\<lambda>c. c = CHR ''*'') (butlast n) \<noteq> []"
    by (auto simp: starCount_def)
  then show ?thesis
    by (auto simp: ContainsStar_def filter_empty_conv)
qed

lemma ContainsStar_butlast: "ContainsStar (butlast n) \<Longrightarrow> ContainsStar n"
  by (auto simp: ContainsStar_def dest: in_set_butlastD)

lemma parseRule_malformed:
  assumes "malformedRule k"
  shows "\<exists>msg. fst (parseRule value k s e p out) = Inl msg"
proof (cases "Index k (CHR ''='')")
  case None
  then show ?thesis by (simp add: parseRule_def)
next
  case (Some j)
  then have eq: "CHR ''='' \<in> set k" using Index_None [of k "CHR ''=''"] by auto
  have rn: "ruleName k = take j k" using Some by (simp add: ruleName_def)
  from assms eq rn have star: "ContainsStar (butlast (take j k)) \<or>
      (ContainsStar (take j k) \<and> take j k \<noteq> ''*'' \<and> \<not> HasSuffix (take j k) ''/*'')"
    by (auto simp: malformedRule_def misplacedStar_def dest: starCount_butlast)
  show ?thesis
  proof (cases "take j k = ''*'' \<or> HasSuffix (take j k) ''/*''")
    case True
    with star have "ContainsStar (butlast (take j k))" by auto
    with True Some show ?thesis
      by (simp add: parseRule_def Let_def butlast_ToLower split: prod.splits)
  next
    case False
    with star have "ContainsStar (take j k)" by (auto dest: ContainsStar_butlast)
    with False Some show ?thesis
      by (simp add: parseRule_def Let_def split: prod.splits)
  qed
qed

lemma parseRule_Inl:
  "fst (parseRule value k s e p out) = Inl msg \<Longrightarrow> isConfigError value msg"
  by (auto simp: parseRule_def Let_def isConfigError_def split: option.splits prod.splits if_splits)

lemma parseLoop_Inl:
  "fst (parseLoop value s e p out) = Inl msg \<Longrightarrow> isConfigError value msg"
proof (induction "value" s e p out rule: parseLoop.induct)
  case (1 "value" s exact prefix out)
  show ?case
  proof (cases "s = []")
    case True
    with 1 show ?thesis by (simp add: parseLoop.simps)
  next
    case False
    obtain r out' where pr: "parseRule value (fst (nextRule s)) (snd (nextRule s)) exact prefix out = (r, out')"
      by (cases "parseRule value (fst (nextRule s)) (snd (nextRule s)) exact prefix out")
    show ?thesis
    proof (cases r)
      case (Inl m)
      with 1(2) False pr have "m = msg" by (subst (asm) parseLoop.simps) simp
      with pr Inl show ?thesis using parseRule_Inl [of "value" "fst (nextRule s)" "snd (nextRule s)" exact prefix out msg] by simp
    next
      case (Inr ep)
      obtain e' p' where ep: "ep = (e', p')" by (cases ep)
      from 1(2) False pr Inr ep have "fst (parseLoop value (snd (nextRule s)) e' p' out') = Inl msg"
        by (subst (asm) parseLoop.simps) simp
      with 1(1) [OF False pr [symmetric] Inr ep [symmetric]] show ?thesis by simp
    qed
  qed
qed

lemma nextRule_shorter: "s \<noteq> [] \<Longrightarrow> length (snd (nextRule s)) < length s"
  by (auto simp: nextRule_def split: option.splits)

lemma parseLoop_Nil: "parseLoop value [] e p out = (Inr (e, p), out)"
  by (simp add: parseLoop.simps)

lemma parseLoop_step_Inl:
  "s \<noteq> [] \<Longrightarrow> parseRule value (fst (nextRule s)) (snd (nextRule s)) e p out = (Inl m, out')
   \<Longrightarrow> parseLoop value s e p out = (Inl m, out')"
  by (subst parseLoop.simps) simp

lemma parseLoop_step_Inr:
  "s \<noteq> [] \<Longrightarrow> parseRule value (fst (nextRule s)) (snd (nextRule s)) e p out = (Inr (e', p'), out')
   \<Longrightarrow> parseLoop value s e p out = parseLoop value (snd (nextRule s)) e' p' out'"
  by (subst parseLoop.simps) simp

lemma parseLoop_malformed:
  "k \<in> set (rulesOf s) \<Longrightarrow> malformedRule k \<Longrightarrow> \<exists>msg. fst (parseLoop value s e p out) = Inl msg"
proof (induction s arbitrary: e p out rule: length_induct)
  case (1 s)
  from 1(2) have ne: "s \<noteq> []" by (subst (asm) rulesOf.simps) (auto split: if_splits)
  obtain r out' where pr:
    "parseRule value (fst (nextRule s)) (snd (nextRule s)) e p out = (r, out')"
    by (cases "parseRule value (fst (nextRule s)) (snd (nextRule s)) e p out")
  show ?case
  proof (cases r)
    case (Inl m)
    with ne pr show ?thesis by (simp add: parseLoop_step_Inl)
  next
    case (Inr ep)
    obtain e' p' where ep: "ep = (e', p')" by (cases ep)
    have "k \<noteq> fst (nextRule s)"
      using parseRule_malformed [OF 1(3), of "value" "snd (nextRule s)" e p out] pr Inr
      by auto
    with 1(2) ne have "k \<in> set (rulesOf (snd (nextRule s)))"
      by (subst (asm) rulesOf.simps) simp
    with 1(1) 1(3) ne have "\<exists>msg. fst (parseLoop value (snd (nextRule s)) e' p' out') = Inl msg"
      by (simp add: nextRule_shorter)
    with ne pr Inr ep show ?thesis by (simp add: parseLoop_step_Inr)
  qed
qed

text \<open>
  C4. When one of the rules of an (ASCII) flag is malformed, \<open>setLevels\<close> panics with one
  of the three \<open>malformed: ...\<close> messages of \<open>parseFlag\<close>; nothing in \<open>setLevels\<close> recovers
  the panic, which reaches the caller, and no level has been changed.
\<close>

theorem setLevels_malformed_panics:
  assumes "isASCII value" and "k \<in> set (rulesOf value)" and "malformedRule k"
  shows "\<exists>msg. fst (setLevels value st) = Some msg \<and> isConfigError value msg \<and>
    root (snd (setLevels value st)) = root st \<and> vars (snd (setLevels value st)) = vars st"
proof -
  obtain msg where m: "fst (parseFlag value (lg st)) = Inl msg"
    using parseLoop_malformed [OF assms(2,3)] unfolding parseFlag_def by blast
  then have "isConfigError value msg"
    unfolding parseFlag_def by (rule parseLoop_Inl)
  moreover from m have "setLevels value st = (Some msg, st\<lparr>lg := snd (parseFlag value (lg st))\<rparr>)"
    by (cases "parseFlag value (lg st)") (simp add: setLevels_def)
  ultimately show ?thesis by simp
qed

theorem setLevels_malformed_panics_witness:
  "isASCII ''a=i,b*c=v1'' \<and> ''b*c=v1'' \<in> set (rulesOf ''a=i,b*c=v1'') \<and>
   malformedRule ''b*c=v1'' \<and>
   (\<exists>msg. fst (setLevels ''a=i,b*c=v1'' init_vlog) = Some msg \<and>
      isConfigError ''a=i,b*c=v1'' msg \<and>
      root (snd (setLevels ''a=i,b*c=v1'' init_vlog)) = root init_vlog \<and>
      vars (snd (setLevels ''a=i,b*c=v1'' init_vlog)) = vars init_vlog)"
proof -
  have h1: "isASCII ''a=i,b*c=v1''" by code_simp
  have h2: "''b*c=v1'' \<in> set (rulesOf ''a=i,b*c=v1'')" by code_simp
  have h3: "malformedRule ''b*c=v1''" by code_simp
  show ?thesis
    using setLevels_malformed_panics [OF h1 h2 h3, of init_vlog] h1 h2 h3 by simp
qed

lemma parseLevel_unknown:
  "ToLower v \<notin> set levelTokens \<Longrightarrow>
   parseLevel v out = (info, out @ [''ignore invalid logging level='' @ v])"
  by (simp add: parseLevel_def levelTokens_def Let_def)

lemma parseRule_wellformed:
  assumes "Index r (CHR ''='') = Some j" "\<not> malformedRule r"
  shows "parseRule value r s e p out =
    (Inr (recordRule (take j r) (fst (parseLevel (drop (j + 1) r) out)) e p),
     snd (parseLevel (drop (j + 1) r) out))"
proof -
  have rn: "ruleName r = take j r" using assms(1) by (simp add: ruleName_def)
  with assms(2) have ns: "\<not> misplacedStar (take j r)"
    by (simp add: malformedRule_def)
  show ?thesis
  proof (cases "take j r = ''*'' \<or> HasSuffix (take j r) ''/*''")
    case True
    moreover from ns have "\<not> ContainsStar (butlast (take j r))"
      by (simp add: misplacedStar_def)
    ultimately show ?thesis using assms(1)
      by (simp add: parseRule_def recordRule_def Let_def butlast_ToLower split: prod.splits)
  next
    case False
    moreover from ns False have "\<not> ContainsStar (take j r)"
      by (auto simp: misplacedStar_def)
    ultimately show ?thesis using assms(1)
      by (simp add: parseRule_def recordRule_def Let_def split: prod.splits)
  qed
qed

lemma Index_Some_ne: "Index r c = Some j \<Longrightarrow> r \<noteq> []"
  by (cases r) auto

lemma parseLoop_rule_comma:
  assumes "CHR '','' \<notin> set r" "Index r (CHR ''='') = Some j" "\<not> malformedRule r"
  shows "parseLoop value (r @ CHR '','' # rest) e p out =
     parseLoop value rest
       (fst (recordRule (take j r) (fst (parseLevel (drop (j + 1) r) out)) e p))
       (snd (recordRule (take j r) (fst (parseLevel (drop (j + 1) r) out)) e p))
       (snd (parseLevel (drop (j + 1) r) out))"
  using assms
  by (subst parseLoop.simps) (simp add: nextRule_comma parseRule_wellformed split: prod.splits)

lemma parseLoop_rule_last:
  assumes "CHR '','' \<notin> set r" "Index r (CHR ''='') = Some j" "\<not> malformedRule r"
  shows "parseLoop value r e p out =
     (Inr (recordRule (take j r) (fst (parseLevel (drop (j + 1) r) out)) e p),
      snd (parseLevel (drop (j + 1) r) out))"
proof -
  have "r \<noteq> []" using assms(2) by (rule Index_Some_ne)
  then show ?thesis using assms
    by (subst parseLoop.simps) (simp add: nextRule_last parseRule_wellformed parseLoop_Nil)
qed

text \<open>
  C8. A rule (ASCII, with a well-formed name) whose level token is none of \<open>2\<close>, \<open>v2\<close>,
  \<open>1\<close>, \<open>v1\<close>, \<open>i\<close>, \<open>info\<close>, \<open>e\<close>, \<open>err\<close> in lower case is a soft error: \<open>parseLevel\<close> logs
  \<open>ignore invalid logging level=...\<close> and returns \<open>info\<close>; the rule is stored with \<open>info\<close>,
  and the parse goes on with the rules that follow it (or ends normally when it is the
  last rule).
\<close>

theorem unknown_level_is_soft_error:
  assumes "isASCII r" and "CHR '','' \<notin> set r" and "Index r (CHR ''='') = Some j"
    and "\<not> malformedRule r" and "ToLower (drop (j + 1) r) \<notin> set levelTokens"
  shows "parseLevel (drop (j + 1) r) out =
      (info, out @ [''ignore invalid logging level='' @ drop (j + 1) r]) \<and>
    parseLoop value (r @ CHR '','' # rest) e p out =
      parseLoop value rest (fst (recordRule (take j r) info e p))
        (snd (recordRule (take j r) info e p))
        (out @ [''ignore invalid logging level='' @ drop (j + 1) r]) \<and>
    parseLoop value r e p out =
      (Inr (recordRule (take j r) info e p),
       out @ [''ignore invalid logging level='' @ drop (j + 1) r])"
  using assms
  by (simp add: parseLoop_rule_comma parseLoop_rule_last parseLevel_unknown)

theorem unknown_level_is_soft_error_witness:
  "isASCII ''a=zz'' \<and> CHR '','' \<notin> set ''a=zz'' \<and> Index ''a=zz'' (CHR ''='') = Some 1 \<and>
   \<not> malformedRule ''a=zz'' \<and> ToLower (drop (1 + 1) ''a=zz'') \<notin> set levelTokens \<and>
   parseFlag ''a=zz,b=v1'' [] =
     (Inr ([(''a'', info), (''b'', v1)], []), [''ignore invalid logging level=zz''])"
proof -
  have h1: "isASCII ''a=zz''" by code_simp
  have h2: "CHR '','' \<notin> set ''a=zz''" by simp
  have h3: "Index ''a=zz'' (CHR ''='') = Some 1" by code_simp
  have h4: "\<not> malformedRule ''a=zz''" by code_simp
  have h5: "ToLower (drop (1 + 1) ''a=zz'') \<notin> set levelTokens" by code_simp
  have h6: "parseLoop ''a=zz,b=v1'' ''b=v1'' (fst (recordRule (take 1 ''a=zz'') info [] []))
        (snd (recordRule (take 1 ''a=zz'') info [] []))
        ([] @ [''ignore invalid logging level='' @ drop (1 + 1) ''a=zz'']) =
      (Inr ([(''a'', info), (''b'', v1)], []), [''ignore invalid logging level=zz''])"
    by code_simp
  show ?thesis
    using unknown_level_is_soft_error
      [OF h1 h2 h3 h4 h5, of "[]" "''a=zz,b=v1''" "''b=v1''" "[]" "[]"] h1 h2 h3 h4 h5 h6
    by (simp add: parseFlag_def)
qed

subsection \<open>Resolution\<close>

lemma scanPrefixes_find:
  "n \<le> length ks \<Longrightarrow>
   scanPrefixes ks n pmap lv =
     (case find (matchPrefix (Name lv)) (rev (take n ks)) of
        Some k \<Rightarrow> lv\<lparr>Level := lookup0 pmap k\<rparr> | None \<Rightarrow> lv)"
proof (induction n)
  case 0
  then show ?case by simp
next
  case (Suc n)
  then have "take (Suc n) ks = take n ks @ [ks ! n]"
    by (simp add: take_Suc_conv_app_nth)
  with Suc show ?case by (simp add: Let_def)
qed

lemma scanPrefixes_keys:
  "scanPrefixes (sort (map fst pmap)) (length pmap) pmap lv =
     (case find (matchPrefix (Name lv)) (rev (sort (map fst pmap))) of
        Some k \<Rightarrow> lv\<lparr>Level := lookup0 pmap k\<rparr> | None \<Rightarrow> lv)"
  using scanPrefixes_find [of "length pmap" "sort (map fst pmap)" pmap lv] by simp

lemma resolve_cells:
  "map (\<lambda>lv. case map_of emap (Name lv) of Some i \<Rightarrow> lv\<lparr>Level := i\<rparr> | None \<Rightarrow> lv)
     (if pmap \<noteq> [] then
        (let prefixes = sort (map fst pmap)
         in map (scanPrefixes prefixes (length prefixes) pmap) (map (\<lambda>lv. lv\<lparr>Level := d\<rparr>) cs))
      else map (\<lambda>lv. lv\<lparr>Level := d\<rparr>) cs) =
   map (\<lambda>c. c\<lparr>Level := resolve emap pmap d (Name c)\<rparr>) cs"
proof (cases "pmap = []")
  case True
  then show ?thesis
    by (simp add: resolve_def comp_def split: option.splits)
next
  case False
  then show ?thesis
    by (simp add: resolve_def comp_def Let_def scanPrefixes_keys split: option.splits)
qed

lemma setLevels_ok:
  assumes "parseFlag value (lg st) = (Inr (emap, pmap), out)"
  shows "setLevels value st =
    (None, st\<lparr>root := (case map_of pmap ''/'' of
                       Some v \<Rightarrow> (root st)\<lparr>Level := v\<rparr> | None \<Rightarrow> root st),
             vars := map (\<lambda>c. c\<lparr>Level := resolve emap pmap
                       (case map_of pmap ''/'' of Some v \<Rightarrow> v | None \<Rightarrow> Level (root st))
                       (Name c)\<rparr>) (vars st),
             lg := out\<rparr>)"
proof -
  let ?def = "case map_of pmap ''/'' of Some v \<Rightarrow> v | None \<Rightarrow> Level (root st)"
  let ?r0 = "case map_of pmap ''/'' of Some v \<Rightarrow> (root st)\<lparr>Level := v\<rparr> | None \<Rightarrow> root st"
  have d: "Level ?r0 = ?def" by (simp split: option.splits)
  show ?thesis
    unfolding setLevels_def assms Let_def prod.case sum.case d
    by (simp only: resolve_cells [unfolded Let_def])
qed

lemma parseRule_distinct:
  assumes "parseRule value k s e p out = (Inr (e', p'), out')" "distinct (map fst p)"
  shows "distinct (map fst p')"
  using assms
  by (auto simp: parseRule_def Let_def distinct_update split: option.splits prod.splits if_splits)

lemma parseLoop_distinct:
  "parseLoop value s e p out = (Inr (e', p'), out') \<Longrightarrow> distinct (map fst p) \<Longrightarrow>
   distinct (map fst p')"
proof (induction s arbitrary: e p out rule: length_induct)
  case (1 s)
  show ?case
  proof (cases "s = []")
    case True
    with 1(2,3) show ?thesis by (simp add: parseLoop_Nil)
  next
    case ne: False
    obtain r o1 where pr:
      "parseRule value (fst (nextRule s)) (snd (nextRule s)) e p out = (r, o1)"
      by (cases "parseRule value (fst (nextRule s)) (snd (nextRule s)) e p out")
    show ?thesis
    proof (cases r)
      case (Inl m)
      with ne pr 1(2) show ?thesis by (simp add: parseLoop_step_Inl)
    next
      case (Inr ep)
      obtain e1 p1 where ep: "ep = (e1, p1)" by (cases ep)
      with pr Inr have pr': "parseRule value (fst (nextRule s)) (snd (nextRule s)) e p out =
          (Inr (e1, p1), o1)" by simp
      then have d1: "distinct (map fst p1)" using 1(3) by (rule parseRule_distinct)
      from ne pr' 1(2) have "parseLoop value (snd (nextRule s)) e1 p1 o1 = (Inr (e', p'), out')"
        by (simp add: parseLoop_step_Inr)
      with 1(1) ne d1 show ?thesis
        using nextRule_shorter [OF ne] by blast
    qed
  qed
qed

lemma parseRule_prefix_keys:
  assumes "parseRule value k s e p out = (Inr (e', p'), out')"
    and "\<forall>x \<in> fst ` set p. x \<noteq> [] \<and> last x = CHR ''/''"
  shows "\<forall>x \<in> fst ` set p'. x \<noteq> [] \<and> last x = CHR ''/''"
proof -
  from assms(1) have "p' = p \<or> (\<exists>n lv. p' = AList.update (n @ ''/'') lv p)"
    by (auto simp: parseRule_def Let_def split: option.splits prod.splits if_splits)
  then show ?thesis
  proof
    assume "p' = p"
    with assms(2) show ?thesis by simp
  next
    assume "\<exists>n lv. p' = AList.update (n @ ''/'') lv p"
    then obtain n lv where "p' = AList.update (n @ ''/'') lv p" by blast
    then have "fst ` set p' = {n @ ''/''} \<union> fst ` set p" by (simp only: dom_update)
    with assms(2) show ?thesis by auto
  qed
qed

lemma parseLoop_prefix_keys:
  "parseLoop value s e p out = (Inr (e', p'), out') \<Longrightarrow>
   \<forall>x \<in> fst ` set p. x \<noteq> [] \<and> last x = CHR ''/'' \<Longrightarrow>
   \<forall>x \<in> fst ` set p'. x \<noteq> [] \<and> last x = CHR ''/''"
proof (induction s arbitrary: e p out rule: length_induct)
  case (1 s)
  show ?case
  proof (cases "s = []")
    case True
    with 1(2,3) show ?thesis by (simp add: parseLoop_Nil)
  next
    case ne: False
    obtain r o1 where pr:
      "parseRule value (fst (nextRule s)) (snd (nextRule s)) e p out = (r, o1)"
      by (cases "parseRule value (fst (nextRule s)) (snd (nextRule s)) e p out")
    show ?thesis
    proof (cases r)
      case (Inl m)
      with ne pr 1(2) show ?thesis by (simp add: parseLoop_step_Inl)
    next
      case (Inr ep)
      obtain e1 p1 where ep: "ep = (e1, p1)" by (cases ep)
      with pr Inr have pr': "parseRule value (fst (nextRule s)) (snd (nextRule s)) e p out =
          (Inr (e1, p1), o1)" by simp
      then have k1: "\<forall>x \<in> fst ` set p1. x \<noteq> [] \<and> last x = CHR ''/''"
        using 1(3) by (rule parseRule_prefix_keys)
      from ne pr' 1(2) have "parseLoop value (snd (nextRule s)) e1 p1 o1 = (Inr (e', p'), out')"
        by (simp add: parseLoop_step_Inr)
      with 1(1) ne k1 show ?thesis
        using nextRule_shorter [OF ne] by blast
    qed
  qed
qed

lemma parseFlag_prefix_keys:
  "parseFlag value out = (Inr (e, p), out') \<Longrightarrow> x \<in> fst ` set p \<Longrightarrow>
   x \<noteq> [] \<and> last x = CHR ''/''"
  unfolding parseFlag_def by (drule parseLoop_prefix_keys) auto

lemma scan_order_descending:
  "distinct ks \<Longrightarrow> sorted_wrt (\<lambda>a b. b < a) (rev (sort ks))"
  by (simp add: sorted_wrt_rev strict_sorted_iff)

text \<open>
  C3. When \<open>parseFlag\<close> returns the maps \<open>emap\<close> (exact) and \<open>pmap\<close> (prefix) for an ASCII
  flag, \<open>setLevels\<close> scans the prefixes in the order \<open>rev (sort keys)\<close>, which is
  strictly descending in the lexicographic order of the strings and holds every prefix.
  Every cell keeps its name and gets the level of the first prefix in that order that
  matches its name (the scan stops there), the default if none matches, unless an exact
  rule for its name overrides both. The order is not by length: for
  \<open>a/b/*=v1,b/*=v2\<close> the shorter \<open>b/\<close> is scanned before \<open>a/b/\<close>.
\<close>

theorem prefix_rules_scanned_in_descending_order:
  assumes "isASCII value" and "parseFlag value (lg st) = (Inr (emap, pmap), out)"
    and "i < length (vars st)"
  shows "sorted_wrt (\<lambda>a b. b < a) (rev (sort (map fst pmap))) \<and>
    set (rev (sort (map fst pmap))) = fst ` set pmap \<and>
    fst (setLevels value st) = None \<and>
    length (vars (snd (setLevels value st))) = length (vars st) \<and>
    Name (vars (snd (setLevels value st)) ! i) = Name (vars st ! i) \<and>
    Level (vars (snd (setLevels value st)) ! i) =
      (case map_of emap (Name (vars st ! i)) of
         Some l \<Rightarrow> l
       | None \<Rightarrow>
          (case find (matchPrefix (Name (vars st ! i))) (rev (sort (map fst pmap))) of
             Some k \<Rightarrow> lookup0 pmap k
           | None \<Rightarrow> Level (root (snd (setLevels value st))))) \<and>
    parseFlag ''a/b/*=v1,b/*=v2'' [] = (Inr ([], [(''a/b/'', v1), (''b/'', v2)]), []) \<and>
    rev (sort (map fst [(''a/b/'', v1), (''b/'', v2)])) = [''b/'', ''a/b/'']"
proof -
  have 0: "parseFlag ''a/b/*=v1,b/*=v2'' [] = (Inr ([], [(''a/b/'', v1), (''b/'', v2)]), [])"
    by code_simp
  have "distinct (map fst pmap)"
    using assms(2) unfolding parseFlag_def by (rule parseLoop_distinct) simp
  then have 1: "sorted_wrt (\<lambda>a b. b < a) (rev (sort (map fst pmap)))"
    by (rule scan_order_descending)
  have 2: "rev (sort (map fst [(''a/b/'', v1), (''b/'', v2)])) = [''b/'', ''a/b/'']"
    by code_simp
  have 3: "Level (case map_of pmap ''/'' of None \<Rightarrow> root st | Some v \<Rightarrow> (root st)\<lparr>Level := v\<rparr>)
     = (case map_of pmap ''/'' of Some v \<Rightarrow> v | None \<Rightarrow> Level (root st))"
    by (simp split: option.splits)
  show ?thesis
    using assms(3) 0 1 2 3
    by (simp add: setLevels_ok [OF assms(2)] resolve_def split: option.splits)
qed

theorem prefix_rules_scanned_in_descending_order_witness:
  "isASCII ''a/*=i,a/b/*=v1'' \<and>
   parseFlag ''a/*=i,a/b/*=v1''
     (lg (register_all [''a'', ''a/b'', ''a/b/c'', ''b/c'', ''c/d''] init_vlog)) =
     (Inr ([], [(''a/'', info), (''a/b/'', v1)]), []) \<and>
   2 < length (vars (register_all [''a'', ''a/b'', ''a/b/c'', ''b/c'', ''c/d''] init_vlog)) \<and>
   find (matchPrefix ''a/b/c'') (rev (sort (map fst [(''a/'', info), (''a/b/'', v1)]))) =
     Some ''a/b/'' \<and>
   Level (vars (snd (setLevels ''a/*=i,a/b/*=v1''
     (register_all [''a'', ''a/b'', ''a/b/c'', ''b/c'', ''c/d''] init_vlog))) ! 2) = v1"
proof -
  let ?S = "register_all [''a'', ''a/b'', ''a/b/c'', ''b/c'', ''c/d''] init_vlog"
  have h1: "isASCII ''a/*=i,a/b/*=v1''" by code_simp
  have h2: "parseFlag ''a/*=i,a/b/*=v1'' (lg ?S) =
     (Inr ([], [(''a/'', info), (''a/b/'', v1)]), [])" by code_simp
  have h3: "2 < length (vars ?S)" by code_simp
  have f: "find (matchPrefix ''a/b/c'') (rev (sort (map fst [(''a/'', info), (''a/b/'', v1)]))) =
     Some ''a/b/''" by code_simp
  have n: "Name (vars ?S ! 2) = ''a/b/c''" by code_simp
  have "Level (vars (snd (setLevels ''a/*=i,a/b/*=v1'' ?S)) ! 2) =
      (case map_of [] (Name (vars ?S ! 2)) of
         Some l \<Rightarrow> l
       | None \<Rightarrow>
          (case find (matchPrefix (Name (vars ?S ! 2)))
                  (rev (sort (map fst [(''a/'', info), (''a/b/'', v1)]))) of
             Some k \<Rightarrow> lookup0 [(''a/'', info), (''a/b/'', v1)] k
           | None \<Rightarrow> Level (root (snd (setLevels ''a/*=i,a/b/*=v1'' ?S)))))"
    using prefix_rules_scanned_in_descending_order [OF h1 h2 h3] by blast
  also have "\<dots> = v1"
    unfolding n f by (simp add: lookup0_def)
  finally show ?thesis using h1 h2 h3 f by blast
qed

lemma TrimRightSlash_snoc: "TrimRightSlash (x @ ''/'') = TrimRightSlash x"
  by (simp add: TrimRightSlash_def)

lemma ToLower_append: "ToLower (a @ b) = ToLower a @ ToLower b"
  by (simp add: ToLower_def)

lemma ToLower_slash_star: "ToLower ''/*'' = ''/*''"
  by (simp add: ToLower_eq_slash_star)

lemma prefix_rule_wellformed:
  assumes "CHR ''='' \<notin> set q" "CHR ''*'' \<notin> set q"
  shows "Index (q @ ''/*='' @ tok) (CHR ''='') = Some (length q + 2)"
    and "\<not> malformedRule (q @ ''/*='' @ tok)"
proof -
  have "CHR ''='' \<notin> set (q @ ''/*'')" using assms(1) by simp
  then have "Index ((q @ ''/*'') @ CHR ''='' # tok) (CHR ''='') = Some (length (q @ ''/*''))"
    by (rule Index_append)
  then show i: "Index (q @ ''/*='' @ tok) (CHR ''='') = Some (length q + 2)" by simp
  then have rn: "ruleName (q @ ''/*='' @ tok) = q @ ''/*''"
    by (simp add: ruleName_def)
  have "butlast (q @ ''/*'') = q @ ''/''" by (simp add: butlast_append)
  moreover have "HasSuffix (q @ ''/*'') ''/*''" by (auto simp: HasSuffix_iff)
  ultimately have "\<not> misplacedStar (q @ ''/*'')"
    using assms(2) by (simp add: misplacedStar_def ContainsStar_def)
  moreover have "starCount (q @ ''/*'') = 1"
    using assms(2) by (auto simp: starCount_def filter_empty_conv)
  ultimately show "\<not> malformedRule (q @ ''/*='' @ tok)"
    unfolding malformedRule_def rn by simp
qed

lemma recordRule_prefix:
  "recordRule (q @ ''/*'') lv [] [] = ([], [(TrimRightSlash (ToLower q) @ ''/'', lv)])"
proof -
  have "HasSuffix (q @ ''/*'') ''/*''" by (auto simp: HasSuffix_iff)
  moreover have "butlast (ToLower (q @ ''/*'')) = ToLower q @ ''/''"
    by (simp add: ToLower_append ToLower_slash_star butlast_append)
  ultimately show ?thesis
    by (simp add: recordRule_def Let_def TrimRightSlash_snoc)
qed

lemma parseFlag_prefix_rule:
  assumes "CHR '','' \<notin> set q" "CHR ''='' \<notin> set q" "CHR ''*'' \<notin> set q" "CHR '','' \<notin> set tok"
  shows "parseFlag (q @ ''/*='' @ tok) out =
    (Inr ([], [(TrimRightSlash (ToLower q) @ ''/'', fst (parseLevel tok out))]),
     snd (parseLevel tok out))"
proof -
  have c: "CHR '','' \<notin> set (q @ ''/*='' @ tok)" using assms(1,4) by simp
  have d: "drop (length q + 2 + 1) (q @ ''/*='' @ tok) = tok" by simp
  have t: "take (length q + 2) (q @ ''/*='' @ tok) = q @ ''/*''" by simp
  show ?thesis
    unfolding parseFlag_def
    by (simp only: parseLoop_rule_last [OF c prefix_rule_wellformed [OF assms(2,3)]] d t
        recordRule_prefix)
qed

lemma matchPrefix_normalized:
  "matchPrefix name (n @ ''/'') \<longleftrightarrow> name = n \<or> HasPrefix name (n @ ''/'')"
  by (simp add: matchPrefix_def)

lemma find_greatest:
  fixes xs :: "string list"
  assumes "sorted_wrt (\<lambda>a b. b < a) xs" "k \<in> set xs" "P k"
    and "\<forall>k' \<in> set xs. k < k' \<longrightarrow> \<not> P k'"
  shows "find P xs = Some k"
  using assms
proof (induction xs)
  case Nil
  then show ?case by simp
next
  case (Cons x xs)
  show ?case
  proof (cases "x = k")
    case True
    with Cons.prems(3) show ?thesis by simp
  next
    case False
    with Cons.prems(2) have k: "k \<in> set xs" by simp
    with Cons.prems(1) have "k < x" by simp
    with Cons.prems(4) have "\<not> P x" by simp
    moreover have "find P xs = Some k"
      using Cons.IH Cons.prems k by simp
    ultimately show ?thesis by simp
  qed
qed

lemma lookup0_member:
  "distinct (map fst pmap) \<Longrightarrow> (k, lv) \<in> set pmap \<Longrightarrow> lookup0 pmap k = lv"
  by (simp add: lookup0_def)

lemma resolve_prefix:
  assumes "distinct (map fst pmap)" "map_of emap name = None" "(k, lv) \<in> set pmap"
    and "name = butlast k \<or> HasPrefix name k"
    and "\<forall>k' \<in> fst ` set pmap. k < k' \<longrightarrow> \<not> (name = butlast k' \<or> HasPrefix name k')"
  shows "resolve emap pmap d name = lv"
proof -
  have s: "sorted_wrt (\<lambda>a b. b < a) (rev (sort (map fst pmap)))"
    using assms(1) by (rule scan_order_descending)
  have m: "k \<in> set (rev (sort (map fst pmap)))"
    using assms(3) by force
  have "find (matchPrefix name) (rev (sort (map fst pmap))) = Some k"
    using s m
  proof (rule find_greatest)
    show "matchPrefix name k" using assms(4) by (simp add: matchPrefix_def)
    show "\<forall>k' \<in> set (rev (sort (map fst pmap))). k < k' \<longrightarrow> \<not> matchPrefix name k'"
      using assms(5) by (simp add: matchPrefix_def)
  qed
  then show ?thesis
    using assms(1,2,3) by (simp add: resolve_def lookup0_member)
qed

lemma resolve_default:
  assumes "map_of emap name = None"
    and "\<forall>k \<in> fst ` set pmap. \<not> (name = butlast k \<or> HasPrefix name k)"
  shows "resolve emap pmap d name = d"
proof -
  have "find (matchPrefix name) (rev (sort (map fst pmap))) = None"
    using assms(2) by (simp add: find_None_iff matchPrefix_def)
  with assms(1) show ?thesis by (simp add: resolve_def)
qed

lemma setLevels_cell:
  assumes "parseFlag value (lg st) = (Inr (emap, pmap), out)" "i < length (vars st)"
  shows "Level (vars (snd (setLevels value st)) ! i) =
      resolve emap pmap (Level (root (snd (setLevels value st)))) (Name (vars st ! i))"
proof -
  have "Level (case map_of pmap ''/'' of None \<Rightarrow> root st | Some v \<Rightarrow> (root st)\<lparr>Level := v\<rparr>)
     = (case map_of pmap ''/'' of Some v \<Rightarrow> v | None \<Rightarrow> Level (root st))"
    by (simp split: option.splits)
  then show ?thesis
    using assms(2) by (simp add: setLevels_ok [OF assms(1)])
qed

lemma recordRule_prefix_any:
  "recordRule (q @ ''/*'') lv e p = (e, AList.update (TrimRightSlash (ToLower q) @ ''/'') lv p)"
proof -
  have "HasSuffix (q @ ''/*'') ''/*''" by (auto simp: HasSuffix_iff)
  moreover have "butlast (ToLower (q @ ''/*'')) = ToLower q @ ''/''"
    by (simp add: ToLower_append ToLower_slash_star butlast_append)
  ultimately show ?thesis
    by (simp add: recordRule_def Let_def TrimRightSlash_snoc)
qed

lemma parseRule_prefix_rule:
  assumes "CHR ''='' \<notin> set q" "CHR ''*'' \<notin> set q"
  shows "\<exists>lv out'. parseRule value (q @ ''/*='' @ tok) s e p out =
    (Inr (e, AList.update (TrimRightSlash (ToLower q) @ ''/'') lv p), out')"
proof -
  have t: "take (length q + 2) (q @ ''/*='' @ tok) = q @ ''/*''" by simp
  show ?thesis
    by (simp only: parseRule_wellformed [OF prefix_rule_wellformed [OF assms]] t
        recordRule_prefix_any) blast
qed

lemma parseRule_keys_mono:
  assumes "parseRule value k s e p out = (Inr (e', p'), out')"
  shows "fst ` set p \<subseteq> fst ` set p'"
proof -
  from assms have "p' = p \<or> (\<exists>n lv. p' = AList.update (n @ ''/'') lv p)"
    by (auto simp: parseRule_def Let_def split: option.splits prod.splits if_splits)
  then show ?thesis
  proof
    assume "p' = p"
    then show ?thesis by simp
  next
    assume "\<exists>n lv. p' = AList.update (n @ ''/'') lv p"
    then obtain n lv where "p' = AList.update (n @ ''/'') lv p" by blast
    then have "fst ` set p' = {n @ ''/''} \<union> fst ` set p" by (simp only: dom_update)
    then show ?thesis by auto
  qed
qed

lemma parseLoop_keys_mono:
  "parseLoop value s e p out = (Inr (e', p'), out') \<Longrightarrow> fst ` set p \<subseteq> fst ` set p'"
proof (induction s arbitrary: e p out rule: length_induct)
  case (1 s)
  show ?case
  proof (cases "s = []")
    case True
    with 1(2) show ?thesis by (simp add: parseLoop_Nil)
  next
    case ne: False
    obtain r o1 where pr:
      "parseRule value (fst (nextRule s)) (snd (nextRule s)) e p out = (r, o1)"
      by (cases "parseRule value (fst (nextRule s)) (snd (nextRule s)) e p out")
    show ?thesis
    proof (cases r)
      case (Inl m)
      with ne pr 1(2) show ?thesis by (simp add: parseLoop_step_Inl)
    next
      case (Inr ep)
      obtain e1 p1 where ep: "ep = (e1, p1)" by (cases ep)
      with pr Inr have pr': "parseRule value (fst (nextRule s)) (snd (nextRule s)) e p out =
          (Inr (e1, p1), o1)" by simp
      then have k1: "fst ` set p \<subseteq> fst ` set p1" by (rule parseRule_keys_mono)
      from ne pr' 1(2) have "parseLoop value (snd (nextRule s)) e1 p1 o1 = (Inr (e', p'), out')"
        by (simp add: parseLoop_step_Inr)
      with 1(1) ne have "fst ` set p1 \<subseteq> fst ` set p'"
        using nextRule_shorter [OF ne] by blast
      with k1 show ?thesis by blast
    qed
  qed
qed

lemma parseLoop_rule_key:
  assumes "CHR ''='' \<notin> set q" "CHR ''*'' \<notin> set q"
  shows "parseLoop value s e p out = (Inr (e', p'), out') \<Longrightarrow>
    q @ ''/*='' @ tok \<in> set (rulesOf s) \<Longrightarrow>
    TrimRightSlash (ToLower q) @ ''/'' \<in> fst ` set p'"
proof (induction s arbitrary: e p out rule: length_induct)
  case (1 s)
  from 1(3) have ne: "s \<noteq> []" by (subst (asm) rulesOf.simps) (auto split: if_splits)
  obtain r o1 where pr:
    "parseRule value (fst (nextRule s)) (snd (nextRule s)) e p out = (r, o1)"
    by (cases "parseRule value (fst (nextRule s)) (snd (nextRule s)) e p out")
  show ?case
  proof (cases r)
    case (Inl m)
    with ne pr 1(2) show ?thesis by (simp add: parseLoop_step_Inl)
  next
    case (Inr ep)
    obtain e1 p1 where ep: "ep = (e1, p1)" by (cases ep)
    with pr Inr have pr': "parseRule value (fst (nextRule s)) (snd (nextRule s)) e p out =
        (Inr (e1, p1), o1)" by simp
    with ne 1(2) have rest: "parseLoop value (snd (nextRule s)) e1 p1 o1 = (Inr (e', p'), out')"
      by (simp add: parseLoop_step_Inr)
    show ?thesis
    proof (cases "q @ ''/*='' @ tok = fst (nextRule s)")
      case True
      obtain lv o2 where "parseRule value (q @ ''/*='' @ tok) (snd (nextRule s)) e p out =
          (Inr (e, AList.update (TrimRightSlash (ToLower q) @ ''/'') lv p), o2)"
        using parseRule_prefix_rule [OF assms] by blast
      with pr' True have "p1 = AList.update (TrimRightSlash (ToLower q) @ ''/'') lv p" by simp
      then have "fst ` set p1 = {TrimRightSlash (ToLower q) @ ''/''} \<union> fst ` set p"
        by (simp only: dom_update)
      moreover have "fst ` set p1 \<subseteq> fst ` set p'"
        using rest by (rule parseLoop_keys_mono)
      ultimately show ?thesis by blast
    next
      case False
      with 1(3) ne have "q @ ''/*='' @ tok \<in> set (rulesOf (snd (nextRule s)))"
        by (subst (asm) rulesOf.simps) simp
      with 1(1) ne rest show ?thesis
        using nextRule_shorter [OF ne] by blast
    qed
  qed
qed

lemma setLevels_single_prefix_rule:
  assumes "CHR '','' \<notin> set q" and "CHR ''='' \<notin> set q" and "CHR ''*'' \<notin> set q"
    and "CHR '','' \<notin> set tok"
  shows "setLevels (q @ ''/*='' @ tok) st =
    (None,
     st\<lparr>root := (if TrimRightSlash (ToLower q) = [] then (root st)\<lparr>Level := fst (parseLevel tok (lg st))\<rparr>
                 else root st),
        vars := map (\<lambda>c. c\<lparr>Level :=
                       if Name c = TrimRightSlash (ToLower q) \<or>
                          HasPrefix (Name c) (TrimRightSlash (ToLower q) @ ''/'')
                       then fst (parseLevel tok (lg st))
                       else if TrimRightSlash (ToLower q) = [] then fst (parseLevel tok (lg st))
                       else Level (root st)\<rparr>) (vars st),
        lg := snd (parseLevel tok (lg st))\<rparr>)"
proof -
  let ?n = "TrimRightSlash (ToLower q)"
  let ?lv = "fst (parseLevel tok (lg st))"
  have r: "resolve [] [(?n @ ''/'', ?lv)] d name =
      (if name = ?n \<or> HasPrefix name (?n @ ''/'') then ?lv else d)" for d name
    by (simp add: resolve_def matchPrefix_normalized lookup0_def)
  note e = setLevels_ok [OF parseFlag_prefix_rule [OF assms, of "lg st"]]
  show ?thesis
    unfolding e by (auto simp: r)
qed

text \<open>
  C9. In every resolution pass of an ASCII flag that parses, a cell matches a normalized
  prefix \<open>k\<close> of the prefix map when its name is \<open>k\<close> without the final slash or has \<open>k\<close>
  as a string prefix: a cell without an exact rule gets the level of the prefix \<open>k\<close> that
  matches it in this sense when no greater prefix of the map does, and the default
  when no prefix does. A prefix rule written \<open>q/*=tok\<close> in the flag puts the
  normalized prefix \<open>n/\<close>, \<open>n = TrimRight(ToLower(q), "/")\<close>, into the map, so it applies to
  the cell named exactly \<open>n\<close> as well as to the cells whose names begin with \<open>n/\<close>. When
  the flag is that rule alone, these cells get the level of \<open>tok\<close> and all others the
  default. In \<open>TestSetLevels\<close> the flag \<open>a/*=i,a/b/*=v1\<close> puts \<open>a/b\<close> as well as \<open>a/b/c\<close>
  at \<open>v1\<close>.
\<close>

theorem prefix_rule_matches_name_and_subtree:
  assumes "isASCII value" and "parseFlag value (lg st) = (Inr (emap, pmap), out)"
    and "i < length (vars st)" and "map_of emap (Name (vars st ! i)) = None"
  shows
   "(\<forall>k lv. (k, lv) \<in> set pmap \<longrightarrow>
       (Name (vars st ! i) = butlast k \<or> HasPrefix (Name (vars st ! i)) k) \<longrightarrow>
       (\<forall>k' \<in> fst ` set pmap. k < k' \<longrightarrow>
          \<not> (Name (vars st ! i) = butlast k' \<or> HasPrefix (Name (vars st ! i)) k')) \<longrightarrow>
       Level (vars (snd (setLevels value st)) ! i) = lv) \<and>
    ((\<forall>k \<in> fst ` set pmap.
        \<not> (Name (vars st ! i) = butlast k \<or> HasPrefix (Name (vars st ! i)) k)) \<longrightarrow>
       Level (vars (snd (setLevels value st)) ! i) = Level (root (snd (setLevels value st)))) \<and>
    (\<forall>q tok. q @ ''/*='' @ tok \<in> set (rulesOf value) \<longrightarrow>
       CHR ''='' \<notin> set q \<longrightarrow> CHR ''*'' \<notin> set q \<longrightarrow>
       TrimRightSlash (ToLower q) @ ''/'' \<in> fst ` set pmap \<and>
       ((Name (vars st ! i) = TrimRightSlash (ToLower q) \<or>
         HasPrefix (Name (vars st ! i)) (TrimRightSlash (ToLower q) @ ''/'')) \<longrightarrow>
        (\<forall>k' \<in> fst ` set pmap. TrimRightSlash (ToLower q) @ ''/'' < k' \<longrightarrow>
           \<not> (Name (vars st ! i) = butlast k' \<or> HasPrefix (Name (vars st ! i)) k')) \<longrightarrow>
        Level (vars (snd (setLevels value st)) ! i) =
          lookup0 pmap (TrimRightSlash (ToLower q) @ ''/''))) \<and>
    (\<forall>q tok st0. isASCII (q @ ''/*='' @ tok) \<longrightarrow> CHR '','' \<notin> set q \<longrightarrow>
       CHR ''='' \<notin> set q \<longrightarrow> CHR ''*'' \<notin> set q \<longrightarrow> CHR '','' \<notin> set tok \<longrightarrow>
       setLevels (q @ ''/*='' @ tok) st0 =
         (None,
          st0\<lparr>root := (if TrimRightSlash (ToLower q) = []
                       then (root st0)\<lparr>Level := fst (parseLevel tok (lg st0))\<rparr>
                       else root st0),
              vars := map (\<lambda>c. c\<lparr>Level :=
                       if Name c = TrimRightSlash (ToLower q) \<or>
                          HasPrefix (Name c) (TrimRightSlash (ToLower q) @ ''/'')
                       then fst (parseLevel tok (lg st0))
                       else if TrimRightSlash (ToLower q) = [] then fst (parseLevel tok (lg st0))
                       else Level (root st0)\<rparr>) (vars st0),
              lg := snd (parseLevel tok (lg st0))\<rparr>)) \<and>
    setLevels ''a/*=i,a/b/*=v1''
       (register_all [''a'', ''a/b'', ''a/b/c'', ''b/c'', ''c/d''] init_vlog) =
     (None, \<lparr>root = \<lparr>Name = [], File = [], Level = info\<rparr>,
        vars = [\<lparr>Name = ''a'', File = [], Level = info\<rparr>,
                \<lparr>Name = ''a/b'', File = [], Level = v1\<rparr>,
                \<lparr>Name = ''a/b/c'', File = [], Level = v1\<rparr>,
                \<lparr>Name = ''b/c'', File = [], Level = info\<rparr>,
                \<lparr>Name = ''c/d'', File = [], Level = info\<rparr>], lg = []\<rparr>)"
proof -
  let ?name = "Name (vars st ! i)"
  let ?lev = "Level (vars (snd (setLevels value st)) ! i)"
  have d: "distinct (map fst pmap)"
    using assms(2) unfolding parseFlag_def by (rule parseLoop_distinct) simp
  have cell: "?lev = resolve emap pmap (Level (root (snd (setLevels value st)))) ?name"
    using assms(2,3) by (rule setLevels_cell)
  have 1: "?lev = lv" if "(k, lv) \<in> set pmap" "?name = butlast k \<or> HasPrefix ?name k"
    "\<forall>k' \<in> fst ` set pmap. k < k' \<longrightarrow> \<not> (?name = butlast k' \<or> HasPrefix ?name k')" for k lv
    unfolding cell using d assms(4) that by (rule resolve_prefix)
  have 2: "?lev = Level (root (snd (setLevels value st)))"
    if "\<forall>k \<in> fst ` set pmap. \<not> (?name = butlast k \<or> HasPrefix ?name k)"
    unfolding cell using assms(4) that by (rule resolve_default)
  have 3: "TrimRightSlash (ToLower q) @ ''/'' \<in> fst ` set pmap \<and>
       ((?name = TrimRightSlash (ToLower q) \<or>
         HasPrefix ?name (TrimRightSlash (ToLower q) @ ''/'')) \<longrightarrow>
        (\<forall>k' \<in> fst ` set pmap. TrimRightSlash (ToLower q) @ ''/'' < k' \<longrightarrow>
           \<not> (?name = butlast k' \<or> HasPrefix ?name k')) \<longrightarrow>
        ?lev = lookup0 pmap (TrimRightSlash (ToLower q) @ ''/''))"
    if r: "q @ ''/*='' @ tok \<in> set (rulesOf value)" "CHR ''='' \<notin> set q" "CHR ''*'' \<notin> set q"
    for q tok
  proof -
    let ?k = "TrimRightSlash (ToLower q) @ ''/''"
    have k: "?k \<in> fst ` set pmap"
      using parseLoop_rule_key [OF r(2,3) assms(2) [unfolded parseFlag_def] r(1)] .
    then obtain lv where m: "(?k, lv) \<in> set pmap" by auto
    with d have l: "lookup0 pmap ?k = lv" by (simp add: lookup0_member)
    have "?lev = lookup0 pmap ?k"
      if "?name = TrimRightSlash (ToLower q) \<or> HasPrefix ?name ?k"
        "\<forall>k' \<in> fst ` set pmap. ?k < k' \<longrightarrow> \<not> (?name = butlast k' \<or> HasPrefix ?name k')"
      unfolding l using m _ that(2)
    proof (rule 1)
      show "?name = butlast ?k \<or> HasPrefix ?name ?k" using that(1) by simp
    qed
    with k show ?thesis by blast
  qed
  have 4: "setLevels ''a/*=i,a/b/*=v1''
       (register_all [''a'', ''a/b'', ''a/b/c'', ''b/c'', ''c/d''] init_vlog) =
     (None, \<lparr>root = \<lparr>Name = [], File = [], Level = info\<rparr>,
        vars = [\<lparr>Name = ''a'', File = [], Level = info\<rparr>,
                \<lparr>Name = ''a/b'', File = [], Level = v1\<rparr>,
                \<lparr>Name = ''a/b/c'', File = [], Level = v1\<rparr>,
                \<lparr>Name = ''b/c'', File = [], Level = info\<rparr>,
                \<lparr>Name = ''c/d'', File = [], Level = info\<rparr>], lg = []\<rparr>)"
    by code_simp
  show ?thesis
    using 1 2 3 4 setLevels_single_prefix_rule by (intro conjI allI impI) blast+
qed

theorem prefix_rule_matches_name_and_subtree_witness:
  "isASCII ''a/*=v1,b/*=v2'' \<and>
   parseFlag ''a/*=v1,b/*=v2'' (lg (register_all [''a'', ''b'', ''a/x'', ''c''] init_vlog)) =
     (Inr ([], [(''a/'', v1), (''b/'', v2)]), []) \<and>
   0 < length (vars (register_all [''a'', ''b'', ''a/x'', ''c''] init_vlog)) \<and>
   map_of [] (Name (vars (register_all [''a'', ''b'', ''a/x'', ''c''] init_vlog) ! 0)) = None \<and>
   (''a/'', v1) \<in> set [(''a/'', v1), (''b/'', v2)] \<and>
   Name (vars (register_all [''a'', ''b'', ''a/x'', ''c''] init_vlog) ! 0) = butlast ''a/'' \<and>
   ''a'' @ ''/*='' @ ''v1'' \<in> set (rulesOf ''a/*=v1,b/*=v2'') \<and>
   Level (vars (snd (setLevels ''a/*=v1,b/*=v2''
     (register_all [''a'', ''b'', ''a/x'', ''c''] init_vlog))) ! 0) = v1 \<and>
   3 < length (vars (register_all [''a'', ''b'', ''a/x'', ''c''] init_vlog)) \<and>
   map_of [] (Name (vars (register_all [''a'', ''b'', ''a/x'', ''c''] init_vlog) ! 3)) = None \<and>
   Level (vars (snd (setLevels ''a/*=v1,b/*=v2''
     (register_all [''a'', ''b'', ''a/x'', ''c''] init_vlog))) ! 3) =
     Level (root (snd (setLevels ''a/*=v1,b/*=v2''
       (register_all [''a'', ''b'', ''a/x'', ''c''] init_vlog)))) \<and>
   map Level (vars (snd (setLevels ''a/*=v1,b/*=v2''
     (register_all [''a'', ''b'', ''a/x'', ''c''] init_vlog)))) = [v1, v2, v1, info] \<and>
   CHR ''='' \<notin> set ''a'' \<and> CHR ''*'' \<notin> set ''a'' \<and>
   TrimRightSlash (ToLower ''a'') @ ''/'' \<in> fst ` set [(''a/'', v1), (''b/'', v2)] \<and>
   Level (vars (snd (setLevels ''a/*=v1,b/*=v2''
     (register_all [''a'', ''b'', ''a/x'', ''c''] init_vlog))) ! 0) =
     lookup0 [(''a/'', v1), (''b/'', v2)] (TrimRightSlash (ToLower ''a'') @ ''/'') \<and>
   isASCII (''a/b'' @ ''/*='' @ ''v1'') \<and> CHR '','' \<notin> set ''a/b'' \<and>
   CHR ''='' \<notin> set ''a/b'' \<and> CHR ''*'' \<notin> set ''a/b'' \<and> CHR '','' \<notin> set ''v1'' \<and>
   map Level (vars (snd (setLevels (''a/b'' @ ''/*='' @ ''v1'')
     (register_all [''a'', ''a/b'', ''a/b/c'', ''b/c''] init_vlog)))) = [info, v1, v1, info]"
proof -
  let ?V = "''a/*=v1,b/*=v2''"
  let ?S = "register_all [''a'', ''b'', ''a/x'', ''c''] init_vlog"
  let ?P = "[(''a/'', v1), (''b/'', v2)]"
  have h1: "isASCII ?V" by code_simp
  have h2: "parseFlag ?V (lg ?S) = (Inr ([], ?P), [])" by code_simp
  have h3: "0 < length (vars ?S)" by code_simp
  have h4: "map_of [] (Name (vars ?S ! 0)) = None" by simp
  have m1: "(''a/'', v1) \<in> set ?P" by simp
  have m2: "Name (vars ?S ! 0) = butlast ''a/''" by code_simp
  have m3: "\<forall>k' \<in> fst ` set ?P. ''a/'' < k' \<longrightarrow>
      \<not> (Name (vars ?S ! 0) = butlast k' \<or> HasPrefix (Name (vars ?S ! 0)) k')"
    by code_simp
  have r1: "''a'' @ ''/*='' @ ''v1'' \<in> set (rulesOf ?V)" by code_simp
  have g3: "3 < length (vars ?S)" by code_simp
  have g4: "map_of [] (Name (vars ?S ! 3)) = None" by simp
  have n3: "\<forall>k \<in> fst ` set ?P.
      \<not> (Name (vars ?S ! 3) = butlast k \<or> HasPrefix (Name (vars ?S ! 3)) k)"
    by code_simp
  have all: "map Level (vars (snd (setLevels ?V ?S))) = [v1, v2, v1, info]" by code_simp
  have c1: "Level (vars (snd (setLevels ?V ?S)) ! 0) = v1"
    using prefix_rule_matches_name_and_subtree [OF h1 h2 h3 h4] m1 m2 m3 by blast
  have c2: "Level (vars (snd (setLevels ?V ?S)) ! 3) = Level (root (snd (setLevels ?V ?S)))"
    using prefix_rule_matches_name_and_subtree [OF h1 h2 g3 g4] n3 by blast
  have q1: "CHR ''='' \<notin> set ''a''" and q2: "CHR ''*'' \<notin> set ''a''" by simp_all
  have q3: "Name (vars ?S ! 0) = TrimRightSlash (ToLower ''a'') \<or>
      HasPrefix (Name (vars ?S ! 0)) (TrimRightSlash (ToLower ''a'') @ ''/'')"
    by code_simp
  have q4: "\<forall>k' \<in> fst ` set ?P. TrimRightSlash (ToLower ''a'') @ ''/'' < k' \<longrightarrow>
      \<not> (Name (vars ?S ! 0) = butlast k' \<or> HasPrefix (Name (vars ?S ! 0)) k')"
    by code_simp
  have c3: "TrimRightSlash (ToLower ''a'') @ ''/'' \<in> fst ` set ?P"
    using prefix_rule_matches_name_and_subtree [OF h1 h2 h3 h4] r1 q1 q2 by blast
  have c3': "Level (vars (snd (setLevels ?V ?S)) ! 0) =
      lookup0 ?P (TrimRightSlash (ToLower ''a'') @ ''/'')"
    using prefix_rule_matches_name_and_subtree [OF h1 h2 h3 h4] r1 q1 q2 q3 q4 by blast
  let ?S0 = "register_all [''a'', ''a/b'', ''a/b/c'', ''b/c''] init_vlog"
  have s1: "isASCII (''a/b'' @ ''/*='' @ ''v1'')" by code_simp
  have s2: "CHR '','' \<notin> set ''a/b''" and s3: "CHR ''='' \<notin> set ''a/b''"
    and s4: "CHR ''*'' \<notin> set ''a/b''" and s5: "CHR '','' \<notin> set ''v1''" by simp_all
  have p4: "setLevels (''a/b'' @ ''/*='' @ ''v1'') ?S0 =
     (None,
      ?S0\<lparr>root := (if TrimRightSlash (ToLower ''a/b'') = []
                   then (root ?S0)\<lparr>Level := fst (parseLevel ''v1'' (lg ?S0))\<rparr>
                   else root ?S0),
          vars := map (\<lambda>c. c\<lparr>Level :=
                       if Name c = TrimRightSlash (ToLower ''a/b'') \<or>
                          HasPrefix (Name c) (TrimRightSlash (ToLower ''a/b'') @ ''/'')
                       then fst (parseLevel ''v1'' (lg ?S0))
                       else if TrimRightSlash (ToLower ''a/b'') = []
                         then fst (parseLevel ''v1'' (lg ?S0))
                       else Level (root ?S0)\<rparr>) (vars ?S0),
          lg := snd (parseLevel ''v1'' (lg ?S0))\<rparr>)"
    using prefix_rule_matches_name_and_subtree [OF h1 h2 h3 h4] s1 s2 s3 s4 s5 by blast
  have e: "map Level (vars (snd (None :: string option,
      ?S0\<lparr>root := (if TrimRightSlash (ToLower ''a/b'') = []
                   then (root ?S0)\<lparr>Level := fst (parseLevel ''v1'' (lg ?S0))\<rparr>
                   else root ?S0),
          vars := map (\<lambda>c. c\<lparr>Level :=
                       if Name c = TrimRightSlash (ToLower ''a/b'') \<or>
                          HasPrefix (Name c) (TrimRightSlash (ToLower ''a/b'') @ ''/'')
                       then fst (parseLevel ''v1'' (lg ?S0))
                       else if TrimRightSlash (ToLower ''a/b'') = []
                         then fst (parseLevel ''v1'' (lg ?S0))
                       else Level (root ?S0)\<rparr>) (vars ?S0),
          lg := snd (parseLevel ''v1'' (lg ?S0))\<rparr>))) = [info, v1, v1, info]"
    by code_simp
  have c4: "map Level (vars (snd (setLevels (''a/b'' @ ''/*='' @ ''v1'') ?S0))) =
      [info, v1, v1, info]"
    unfolding p4 by (rule e)
  show ?thesis
    using h1 h2 h3 h4 m1 m2 r1 c1 g3 g4 c2 all q1 q2 c3 c3' s1 s2 s3 s4 s5 c4
    by (intro conjI)
qed

subsection \<open>Export and configure\<close>

lemma findName_None: "findName lvs name = None \<longleftrightarrow> name \<notin> Name ` set lvs"
  by (induction lvs) auto

lemma newVar_names:
  "distinct (map Name (vars st)) \<Longrightarrow> distinct (map Name (vars (snd (newVar name fn st))))"
  by (auto simp: newVar_def levelVars_def findName_None split: option.splits)

lemma setLevels_names: "map Name (vars (snd (setLevels value st))) = map Name (vars st)"
proof (cases "parseFlag value (lg st)")
  case (Pair r out)
  show ?thesis
  proof (cases r)
    case (Inl m)
    with Pair show ?thesis by (simp add: setLevels_def)
  next
    case (Inr ep)
    obtain e p where "ep = (e, p)" by (cases ep)
    with Pair Inr have "parseFlag value (lg st) = (Inr (e, p), out)" by simp
    then show ?thesis by (simp add: setLevels_ok comp_def)
  qed
qed

lemma reachable_distinct: "reachable st \<Longrightarrow> distinct (map Name (vars st))"
proof (induction rule: reachable.induct)
  case reachable_init
  then show ?case by (simp add: init_vlog_def)
next
  case (reachable_newVar st name fn)
  then show ?case by (simp add: newVar_names)
next
  case (reachable_setLevels st "value")
  then show ?case by (simp add: setLevels_names)
qed

lemma reachable_register_all: "reachable st \<Longrightarrow> reachable (register_all names st)"
  unfolding register_all_def
  by (induction names arbitrary: st) (auto intro: reachable.intros)

lemma map_of_fold_other:
  "n \<notin> Name ` set cs \<Longrightarrow>
   map_of (fold (\<lambda>c. AList.update (Name c) (Level c)) cs e) n = map_of e n"
  by (induction cs arbitrary: e) (auto simp: update_conv')

lemma map_of_fold_cell:
  "distinct (map Name cs) \<Longrightarrow> c \<in> set cs \<Longrightarrow>
   map_of (fold (\<lambda>c. AList.update (Name c) (Level c)) cs e) (Name c) = Some (Level c)"
proof (induction cs arbitrary: e)
  case Nil
  then show ?case by simp
next
  case (Cons a cs)
  show ?case
  proof (cases "c = a")
    case True
    with Cons.prems show ?thesis by (simp add: map_of_fold_other update_conv')
  next
    case False
    with Cons show ?thesis by simp
  qed
qed

lemma printLevelVars_printCells:
  "printLevelVars st = ''*='' @ Level_String (Level (root st)) @ printCells (vars st)"
  by (simp add: printLevelVars_def printCells_def)

lemma Level_String_chars: "CHR '','' \<notin> set (Level_String l)" "CHR ''='' \<notin> set (Level_String l)"
  by (cases l; simp)+

lemma parseLevel_Level_String: "parseLevel (Level_String l) out = (l, out)"
  by (cases l) (simp_all add: parseLevel_def ToLower_def ToLower_char_def Let_def)

lemma TrimRightSlash_plain: "n \<noteq> [] \<Longrightarrow> last n \<noteq> CHR ''/'' \<Longrightarrow> TrimRightSlash n = n"
  by (cases n rule: rev_cases) (simp_all add: TrimRightSlash_def)

lemma no_star_wellformed:
  assumes "CHR ''='' \<notin> set n" "CHR ''*'' \<notin> set n"
  shows "Index (n @ ''='' @ v) (CHR ''='') = Some (length n)"
    and "\<not> malformedRule (n @ ''='' @ v)"
proof -
  have "Index (n @ CHR ''='' # v) (CHR ''='') = Some (length n)"
    using assms(1) by (rule Index_append)
  then show i: "Index (n @ ''='' @ v) (CHR ''='') = Some (length n)" by simp
  then have rn: "ruleName (n @ ''='' @ v) = n" by (simp add: ruleName_def)
  have "\<not> ContainsStar n" using assms(2) by (simp add: ContainsStar_def)
  then have "\<not> misplacedStar n"
    by (auto simp: misplacedStar_def dest: ContainsStar_butlast)
  moreover have "starCount n = 0"
    using assms(2) by (auto simp: starCount_def filter_empty_conv)
  ultimately show "\<not> malformedRule (n @ ''='' @ v)"
    unfolding malformedRule_def rn by simp
qed

lemma recordRule_plain:
  assumes "plainName n"
  shows "recordRule n lv e p = (AList.update n lv e, p)"
proof -
  from assms have l: "ToLower n = n" and s: "CHR ''*'' \<notin> set n"
    and t: "TrimRightSlash n = n"
    by (simp_all add: plainName_def TrimRightSlash_plain)
  from s have "n \<noteq> ''*''" by auto
  moreover from s have "\<not> HasSuffix n ''/*''" by (auto simp: HasSuffix_iff)
  ultimately show ?thesis by (simp add: recordRule_def l t)
qed

lemma printCells_cases: "printCells cs = [] \<or> printCells cs = CHR '','' # drop 1 (printCells cs)"
  by (cases cs) (simp_all add: printCells_def)

lemma parseLoop_rule_printCells:
  assumes "CHR '','' \<notin> set r" "Index r (CHR ''='') = Some j" "\<not> malformedRule r"
  shows "parseLoop value (r @ printCells cs) e p out =
     parseLoop value (drop 1 (printCells cs))
       (fst (recordRule (take j r) (fst (parseLevel (drop (j + 1) r) out)) e p))
       (snd (recordRule (take j r) (fst (parseLevel (drop (j + 1) r) out)) e p))
       (snd (parseLevel (drop (j + 1) r) out))"
proof (cases "printCells cs = []")
  case True
  then show ?thesis
    using parseLoop_rule_last [OF assms, of "value" e p out] by (simp add: parseLoop_Nil)
next
  case False
  then have "printCells cs = CHR '','' # drop 1 (printCells cs)"
    using printCells_cases [of cs] by simp
  then have "r @ printCells cs = r @ CHR '','' # drop 1 (printCells cs)" by simp
  then show ?thesis
    using parseLoop_rule_comma [OF assms, of "value" "drop 1 (printCells cs)" e p out] by simp
qed

lemma parseLoop_printCells:
  "list_all plainName (map Name cs) \<Longrightarrow>
   parseLoop value (drop 1 (printCells cs)) e p out =
     (Inr (fold (\<lambda>c. AList.update (Name c) (Level c)) cs e, p), out)"
proof (induction cs arbitrary: e)
  case Nil
  then show ?case by (simp add: printCells_def parseLoop_Nil)
next
  case (Cons c cs)
  let ?r = "Name c @ ''='' @ Level_String (Level c)"
  from Cons.prems have pn: "plainName (Name c)" and rest: "list_all plainName (map Name cs)"
    by simp_all
  from pn have c1: "CHR '','' \<notin> set ?r"
    by (simp add: plainName_def Level_String_chars)
  from pn have eq: "CHR ''='' \<notin> set (Name c)" and st: "CHR ''*'' \<notin> set (Name c)"
    by (simp_all add: plainName_def)
  have d: "drop 1 (printCells (c # cs)) = ?r @ printCells cs"
    by (simp add: printCells_def)
  have t: "take (length (Name c)) ?r = Name c" by simp
  have dr: "drop (length (Name c) + 1) ?r = Level_String (Level c)" by simp
  show ?case
    unfolding d
    by (simp only: parseLoop_rule_printCells [OF c1 no_star_wellformed [OF eq st]] t dr
        parseLevel_Level_String recordRule_plain [OF pn] fst_conv snd_conv
        Cons.IH [OF rest] fold_simps)
qed

lemma parseFlag_printLevelVars:
  assumes "list_all plainName (map Name (vars st))"
  shows "parseFlag (printLevelVars st) out =
    (Inr (fold (\<lambda>c. AList.update (Name c) (Level c)) (vars st) [],
          [(''/'', Level (root st))]), out)"
proof -
  let ?r = "''*'' @ ''='' @ Level_String (Level (root st))"
  have c1: "CHR '','' \<notin> set ?r" by (simp add: Level_String_chars)
  have i: "Index ?r (CHR ''='') = Some 1" by simp
  have rn: "ruleName ?r = ''*''" by (simp add: ruleName_def)
  have m: "\<not> malformedRule ?r"
    unfolding malformedRule_def rn
    by (simp add: misplacedStar_def ContainsStar_def starCount_def)
  have tl: "ToLower ''*'' = ''*''" by simp
  have rr: "recordRule ''*'' lv [] [] = ([], [(''/'', lv)])" for lv
    by (simp add: recordRule_def TrimRightSlash_def tl)
  have p: "printLevelVars st = ?r @ printCells (vars st)"
    by (simp add: printLevelVars_printCells)
  have t: "take 1 ?r = ''*''" by simp
  have dr: "drop (1 + 1) ?r = Level_String (Level (root st))" by simp
  show ?thesis
    unfolding parseFlag_def
    by (simp only: p parseLoop_rule_printCells [OF c1 i m] t dr parseLevel_Level_String rr
        fst_conv snd_conv parseLoop_printCells [OF assms])
qed

text \<open>
  C5, as the code has it. In a state reached by \<open>newVar\<close> and \<open>setLevels\<close> in which every
  registered name is plain (not empty, ASCII, lower case, without comma, \<open>=\<close> and \<open>*\<close>,
  not ending in a slash), \<open>setLevels\<close> of the output of \<open>printLevelVars\<close> returns normally,
  logs nothing and leaves every level as it was.
\<close>

theorem export_configure_roundtrip:
  assumes "reachable st" and "list_all plainName (map Name (vars st))"
  shows "setLevels (printLevelVars st) st = (None, st)"
proof -
  let ?emap = "fold (\<lambda>c. AList.update (Name c) (Level c)) (vars st) []"
  let ?pmap = "[(''/'', Level (root st))]"
  have d: "distinct (map Name (vars st))" using assms(1) by (rule reachable_distinct)
  have "map (\<lambda>c. c\<lparr>Level := resolve ?emap ?pmap (Level (root st)) (Name c)\<rparr>) (vars st) =
      map (\<lambda>c. c) (vars st)"
  proof (rule map_cong [OF refl])
    fix c assume "c \<in> set (vars st)"
    with d have "map_of ?emap (Name c) = Some (Level c)" by (rule map_of_fold_cell)
    then show "c\<lparr>Level := resolve ?emap ?pmap (Level (root st)) (Name c)\<rparr> = c"
      by (simp add: resolve_def)
  qed
  then show ?thesis
    by (simp add: setLevels_ok [OF parseFlag_printLevelVars [OF assms(2)]])
qed

theorem export_configure_roundtrip_witness:
  "reachable (snd (setLevels ''a/*=v1,c=e'' (register_all [''a'', ''a/b'', ''c''] init_vlog))) \<and>
   list_all plainName (map Name (vars (snd (setLevels ''a/*=v1,c=e''
     (register_all [''a'', ''a/b'', ''c''] init_vlog))))) \<and>
   printLevelVars (snd (setLevels ''a/*=v1,c=e'' (register_all [''a'', ''a/b'', ''c''] init_vlog)))
     = ''*=info,a=v1,a/b=v1,c=err'' \<and>
   setLevels ''*=info,a=v1,a/b=v1,c=err''
     (snd (setLevels ''a/*=v1,c=e'' (register_all [''a'', ''a/b'', ''c''] init_vlog))) =
   (None, snd (setLevels ''a/*=v1,c=e'' (register_all [''a'', ''a/b'', ''c''] init_vlog)))"
proof -
  let ?S = "snd (setLevels ''a/*=v1,c=e'' (register_all [''a'', ''a/b'', ''c''] init_vlog))"
  have h1: "reachable ?S"
    by (intro reachable_setLevels reachable_register_all reachable_init)
  have h2: "list_all plainName (map Name (vars ?S))" by code_simp
  have p: "printLevelVars ?S = ''*=info,a=v1,a/b=v1,c=err''" by code_simp
  show ?thesis using export_configure_roundtrip [OF h1 h2] h1 h2 p by (simp only:)
qed

text \<open>
  C5 as stated fails for other names. After configuring \<open>*=e\<close> and registering \<open>a=b\<close>
  (the name that \<open>inferName\<close> gives a file in a directory \<open>a=b\<close>), the cell is at \<open>info\<close>
  and \<open>printLevelVars\<close> prints \<open>*=err,a=b=info\<close>; configuring that string reads the rule
  \<open>a=b=info\<close> as the name \<open>a\<close> with the unknown level \<open>b=info\<close>, and the cell \<open>a=b\<close> ends
  at the default \<open>err\<close>.
\<close>

theorem export_configure_changes_level:
  "printLevelVars (snd (newVar ''a=b'' [] (snd (setLevels ''*=e'' init_vlog)))) = ''*=err,a=b=info'' \<and>
   load 1 (snd (newVar ''a=b'' [] (snd (setLevels ''*=e'' init_vlog)))) = info \<and>
   load 1 (snd (setLevels
      (printLevelVars (snd (newVar ''a=b'' [] (snd (setLevels ''*=e'' init_vlog)))))
      (snd (newVar ''a=b'' [] (snd (setLevels ''*=e'' init_vlog)))))) = err"
  by code_simp

end
